theory Spec2Isabelle
  imports Main "HOL-Library.Char_ord" "HOL-Library.List_Lexorder"
begin

section \<open>The article search index: constants\<close>

text \<open>
  The development embeds the article search-index module (the part of the source that
  starts at the import of the search client): \<^verbatim>\<open>onIndexSetup\<close>,
  \<^verbatim>\<open>onFetchItemsToIndex\<close> and \<^verbatim>\<open>onIndexUpdate\<close>.
\<close>

definition READ_BATCH_SIZE :: nat where
  "READ_BATCH_SIZE = 1000"

definition MEILISEARCH_DOCUMENT_BATCH_SIZE :: nat where
  "MEILISEARCH_DOCUMENT_BATCH_SIZE = 25"

definition INDEX_ID :: string where
  "INDEX_ID = ''articles''"

definition SWAP_INDEX_ID :: string where
  "SWAP_INDEX_ID = INDEX_ID @ ''_NEW''"

section \<open>Data\<close>

text \<open>A date is the number of milliseconds since the epoch.\<close>

type_synonym timestamp = int

datatype MetricTimeframe = Day | Week | Month | Year | AllTime

text \<open>A row of the per-timeframe metrics of an article.\<close>

record articleMetric =
  timeframe :: MetricTimeframe
  commentCount :: int
  cryCount :: int
  dislikeCount :: int
  favoriteCount :: int
  heartCount :: int
  hideCount :: int
  laughCount :: int
  viewCount :: int
  likeCount :: int

record tag_row =
  name :: string

record articleTag =
  tag :: tag_row

text \<open>
  An article row with its nested rows. The columns that \<^verbatim>\<open>articleDetailSelect\<close>
  (not part of the source at hand) picks besides the key, the metrics and the tags are
  the opaque \<open>detail\<close>; the other columns are the ones the query's filter reads.
\<close>

record 'd article =
  article_id :: int
  createdAt :: timestamp
  updatedAt :: timestamp
  publishedAt :: "timestamp option"
  tosViolation :: bool
  metrics :: "articleMetric list"
  tags :: "articleTag list"
  detail :: 'd

text \<open>A row of the queue of entities that need a reindex.\<close>

record searchIndexUpdateQueue_row =
  queue_type :: string
  queue_id :: int

text \<open>
  The document sent to the index. A JavaScript object built by a spread is a list of
  key/value pairs in insertion order: the metrics object is such a list.
\<close>

record 'd ArticleSearchIndexRecord =
  record_id :: int
  record_detail :: 'd
  record_metrics :: "(string \<times> int) list"
  record_tags :: "string list"

text \<open>
  The three shapes of filter that \<^verbatim>\<open>onIndexUpdate\<close> builds:
  \<^verbatim>\<open>{createdAt: {gt: t}}\<close>, \<^verbatim>\<open>{updatedAt: {gt: t}}\<close> and
  \<^verbatim>\<open>{id: {in: ids}}\<close>.
\<close>

datatype ArticleWhereInput =
    CreatedAtGt timestamp
  | UpdatedAtGt timestamp
  | IdIn "int list"

record Settings =
  searchableAttributes :: "string list"
  sortableAttributes :: "string list"
  filterableAttributes :: "string list"

record EnqueuedTask =
  taskUid :: nat

datatype TaskStatus = Succeeded | Failed | Pending

datatype error = TimeoutError | TerminalTaskFailureError

section \<open>The collaborators and the state\<close>

text \<open>
  Every call that the module makes to a collaborator (the index service, the store, the
  helpers of the repository that are not part of the source at hand) is recorded, in
  order, with its arguments.
\<close>

datatype 'd call =
    GetOrCreateIndex string
  | GetSettings string
  | UpdateSearchableAttributes string "string list"
  | UpdateSortableAttributes string "string list"
  | UpdateFilterableAttributes string "string list"
  | DocumentsCleanup string
  | QueueFindMany string
  | ArticleFindMany nat nat "ArticleWhereInput list option"
  | UpdateDocuments string "'d ArticleSearchIndexRecord list"
  | WaitForTasks "nat list"
  | SetLastUpdate timestamp
  | QueueDeleteMany string "int list"

text \<open>
  The state: the two tables of the store that the module reads, the stored watermark,
  the calls made so far, the next task identifier of the index service, and the number
  of suspension points passed inside the paging loop.
\<close>

record 'd world =
  db_article :: "'d article list"
  db_searchIndexUpdateQueue :: "searchIndexUpdateQueue_row list"
  lastUpdate :: "timestamp option"
  calls :: "'d call list"
  nextTaskUid :: nat
  awaits :: nat

text \<open>
  What the module is given from outside: whether the imported client handle is non-null,
  what \<^verbatim>\<open>getOrCreateIndex\<close> answers (an index or a null), the settings the
  index reports, the status of each task at each poll and the number of retries of the
  task waiter, and what the other writers of the store do to each table while the pass is
  suspended at an \<^verbatim>\<open>await\<close> of the paging loop.
\<close>

record 'd env =
  client :: bool
  getOrCreateIndex :: "string \<Rightarrow> bool"
  getSettings :: "string \<Rightarrow> Settings"
  task_status :: "nat \<Rightarrow> nat \<Rightarrow> TaskStatus"
  maxRetries :: nat
  article_writers :: "nat \<Rightarrow> 'd article list \<Rightarrow> 'd article list"
  queue_writers :: "nat \<Rightarrow> searchIndexUpdateQueue_row list \<Rightarrow> searchIndexUpdateQueue_row list"

definition record_call :: "'d call \<Rightarrow> 'd world \<Rightarrow> 'd world" where
  "record_call c w = w\<lparr>calls := calls w @ [c]\<rparr>"

text \<open>A call that the index service answers with a freshly numbered task.\<close>

definition enqueue :: "'d call \<Rightarrow> 'd world \<Rightarrow> EnqueuedTask \<times> 'd world" where
  "enqueue c w =
     (\<lparr>taskUid = nextTaskUid w\<rparr>,
      w\<lparr>calls := calls w @ [c], nextTaskUid := Suc (nextTaskUid w)\<rparr>)"

text \<open>The other writers of the store act while the pass is suspended.\<close>

definition suspend :: "'d env \<Rightarrow> 'd world \<Rightarrow> 'd world" where
  "suspend e w =
     w\<lparr>db_article := article_writers e (awaits w) (db_article w),
       db_searchIndexUpdateQueue := queue_writers e (awaits w) (db_searchIndexUpdateQueue w),
       awaits := Suc (awaits w)\<rparr>"

section \<open>The store's query\<close>

text \<open>
  The query interface of the store: the rows that satisfy the filter, in table order,
  without the first \<open>skip\<close>, at most \<open>tk\<close> of them, each projected by the selection.
  An \<^verbatim>\<open>OR\<close> that is undefined is no restriction; an \<^verbatim>\<open>OR\<close> of a list holds when
  one member holds.
\<close>

definition findMany :: "nat \<Rightarrow> nat \<Rightarrow> ('r \<Rightarrow> 's) \<Rightarrow> ('r \<Rightarrow> bool) \<Rightarrow> 'r list \<Rightarrow> 's list" where
  "findMany skip tk sel wh table = map sel (take tk (drop skip (filter wh table)))"

fun where_holds :: "ArticleWhereInput \<Rightarrow> 'd article \<Rightarrow> bool" where
  "where_holds (CreatedAtGt t) a = (t < createdAt a)"
| "where_holds (UpdatedAtGt t) a = (t < updatedAt a)"
| "where_holds (IdIn ids) a = (article_id a \<in> set ids)"

fun OR_holds :: "ArticleWhereInput list option \<Rightarrow> 'd article \<Rightarrow> bool" where
  "OR_holds None a = True"
| "OR_holds (Some ws) a = list_ex (\<lambda>wi. where_holds wi a) ws"

section \<open>onIndexSetup\<close>

text \<open>
  The in-place \<^verbatim>\<open>sort()\<close> of the source orders strings by their code units, which
  is the lexicographic order of the character codes. Two lists of strings have the same
  JSON text exactly when they are equal. The local list of the source is written
  \<open>filterableAttributes'\<close> here, apart from the field of the settings.
\<close>

definition onIndexSetup :: "'d env \<Rightarrow> string \<Rightarrow> 'd world \<Rightarrow> 'd world" where
  "onIndexSetup e indexName w =
     (if \<not> client e then w
      else
        let w1 = record_call (GetOrCreateIndex indexName) w in
        if \<not> getOrCreateIndex e indexName then w1
        else
          let settings = getSettings e indexName;
              w2 = record_call (GetSettings indexName) w1;
              (updateSearchableAttributesTask, w3) =
                 enqueue (UpdateSearchableAttributes indexName
                            [''title'', ''content'', ''tags'', ''user.username'']) w2;
              (sortableFieldsAttributesTask, w4) =
                 enqueue (UpdateSortableAttributes indexName
                            [''createdAt'', ''metrics.commentCount'',
                             ''metrics.favoriteCount'', ''metrics.viewCount'']) w3;
              filterableAttributes' = sort [''tags'']
          in if filterableAttributes' \<noteq> filterableAttributes settings
             then snd (enqueue (UpdateFilterableAttributes indexName filterableAttributes') w4)
             else w4)"

section \<open>onFetchItemsToIndex\<close>

text \<open>The filter and the selection of the query that \<^verbatim>\<open>onFetchItemsToIndex\<close> sends.\<close>

definition article_where :: "ArticleWhereInput list option \<Rightarrow> 'd article \<Rightarrow> bool" where
  "article_where whereOr a =
     (publishedAt a \<noteq> None \<and> tosViolation a = False \<and> OR_holds whereOr a)"

definition article_select :: "'d article \<Rightarrow> 'd article" where
  "article_select a = a\<lparr>metrics := filter (\<lambda>m. timeframe m = AllTime) (metrics a)\<rparr>"

text \<open>The nine selected columns of a metrics row, spread into an object.\<close>

definition metric_fields :: "articleMetric \<Rightarrow> (string \<times> int) list" where
  "metric_fields m =
     [(''commentCount'', commentCount m), (''cryCount'', cryCount m),
      (''dislikeCount'', dislikeCount m), (''favoriteCount'', favoriteCount m),
      (''heartCount'', heartCount m), (''hideCount'', hideCount m),
      (''laughCount'', laughCount m), (''viewCount'', viewCount m),
      (''likeCount'', likeCount m)]"

definition indexReadyRecord :: "'d article \<Rightarrow> 'd ArticleSearchIndexRecord" where
  "indexReadyRecord articleRecord =
     \<lparr>record_id = article_id articleRecord,
      record_detail = detail articleRecord,
      record_metrics = (case metrics articleRecord of [] \<Rightarrow> [] | m # _ \<Rightarrow> metric_fields m),
      record_tags = map (\<lambda>articleTag. name (tag articleTag)) (tags articleRecord)\<rparr>"

definition onFetchItemsToIndex ::
  "ArticleWhereInput list option \<Rightarrow> string \<Rightarrow> nat option \<Rightarrow> 'd world
     \<Rightarrow> 'd ArticleSearchIndexRecord list \<times> 'd world" where
  "onFetchItemsToIndex whereOr indexName skip w =
     (let offset = (case skip of None \<Rightarrow> 0 | Some s \<Rightarrow> s);
          articles = findMany offset READ_BATCH_SIZE article_select (article_where whereOr)
                       (db_article w);
          w' = record_call (ArticleFindMany offset READ_BATCH_SIZE whereOr) w
      in if length articles = 0 then ([], w')
         else (map indexReadyRecord articles, w'))"

section \<open>The document writer and the task waiter\<close>

text \<open>
  Modelled from the spec: \<^verbatim>\<open>updateDocumentsInBatches\<close> is a method of the index
  client, which is not part of the source at hand. The document writer splits its input
  into consecutive sub-batches of the given size, in order, and submits each sub-batch
  by one call that returns a task handle.
\<close>

function batches :: "nat \<Rightarrow> 'a list \<Rightarrow> 'a list list" where
  "batches n xs = (if n = 0 \<or> xs = [] then [] else take n xs # batches n (drop n xs))"
  by pat_completeness auto
termination
  by (relation "measure (\<lambda>(n, xs). length xs)") auto

declare batches.simps [simp del]

text \<open>
  Modelled from the spec: each sub-batch is submitted by one call, in order; the index
  service answers each call with a task handle.
\<close>

fun submit_all ::
  "string \<Rightarrow> 'd ArticleSearchIndexRecord list list \<Rightarrow> 'd world \<Rightarrow> EnqueuedTask list \<times> 'd world" where
  "submit_all indexName [] w = ([], w)"
| "submit_all indexName (b # bs) w =
     (let (t, w1) = enqueue (UpdateDocuments indexName b) w;
          (ts, w2) = submit_all indexName bs w1
      in (t # ts, w2))"

text \<open>
  Modelled from the spec: the document writer, with the arguments of the client's method
  (the documents and the size of a sub-batch).
\<close>

definition updateDocumentsInBatches ::
  "string \<Rightarrow> 'd ArticleSearchIndexRecord list \<Rightarrow> nat \<Rightarrow> 'd world \<Rightarrow> EnqueuedTask list \<times> 'd world" where
  "updateDocumentsInBatches indexName documents batchSize w =
     submit_all indexName (batches batchSize documents) w"

text \<open>
  Modelled from the spec: \<^verbatim>\<open>waitForTasksWithRetries\<close> is a helper of the repository
  that is not part of the source at hand. The task waiter polls the status of all given
  tasks: a failed task is a hard error, all tasks succeeded is success, a pending task
  triggers a retry up to the maximum number of retries, and exceeding the retries without
  all tasks terminal is a timeout error. An empty task list is an immediate success.
\<close>

fun poll_tasks :: "(nat \<Rightarrow> nat \<Rightarrow> TaskStatus) \<Rightarrow> nat list \<Rightarrow> nat \<Rightarrow> nat \<Rightarrow> error + unit" where
  "poll_tasks status taskUids 0 k =
     (if list_ex (\<lambda>t. status t k = Failed) taskUids then Inl TerminalTaskFailureError
      else if list_all (\<lambda>t. status t k = Succeeded) taskUids then Inr ()
      else Inl TimeoutError)"
| "poll_tasks status taskUids (Suc retries) k =
     (if list_ex (\<lambda>t. status t k = Failed) taskUids then Inl TerminalTaskFailureError
      else if list_all (\<lambda>t. status t k = Succeeded) taskUids then Inr ()
      else poll_tasks status taskUids retries (Suc k))"

text \<open>
  Modelled from the spec: the task waiter; an empty task list succeeds without a poll.
\<close>

definition waitForTasksWithRetries :: "'d env \<Rightarrow> nat list \<Rightarrow> error + unit" where
  "waitForTasksWithRetries e taskUids =
     (if taskUids = [] then Inr () else poll_tasks (task_status e) taskUids (maxRetries e) 0)"

text \<open>
  Modelled from the spec: \<^verbatim>\<open>onSearchIndexDocumentsCleanup\<close> is a helper of the
  repository that is not part of the source at hand. The cleanup coordinator works on the
  pending-deletion ledger of the index it is given and on the documents of that index;
  neither is part of the state here, so the call is recorded with the index name it is
  given, and the dirty queue and the watermark are left as they are.
\<close>

definition onSearchIndexDocumentsCleanup :: "string \<Rightarrow> 'd world \<Rightarrow> 'd world" where
  "onSearchIndexDocumentsCleanup indexName w = record_call (DocumentsCleanup indexName) w"

section \<open>onIndexUpdate\<close>

text \<open>
  The rows of the queue of the given type, as \<^verbatim>\<open>db.searchIndexUpdateQueue.findMany\<close>
  returns them: all of them (the query has no skip and no take), in table order, none
  dropped as a duplicate (the query has no \<^verbatim>\<open>distinct\<close>).
\<close>

definition queue_findMany :: "string \<Rightarrow> 'd world \<Rightarrow> searchIndexUpdateQueue_row list \<times> 'd world" where
  "queue_findMany ty w =
     (filter (\<lambda>r. queue_type r = ty) (db_searchIndexUpdateQueue w),
      record_call (QueueFindMany ty) w)"

text \<open>
  The \<^verbatim>\<open>while (true)\<close> loop of \<^verbatim>\<open>onIndexUpdate\<close>. It may run forever when the
  other writers keep adding articles, so it takes fuel, one unit for each iteration; the
  result \<open>None\<close> is a loop that has not returned within the fuel, beside the state reached.
  The other writers act at the suspension point that opens each iteration. The watermark
  \<^verbatim>\<open>lastUpdatedAt\<close> is a date or undefined, and a date is never falsy: the test
  \<^verbatim>\<open>!lastUpdatedAt\<close> holds exactly for \<open>None\<close>.
\<close>

fun paging_loop ::
  "nat \<Rightarrow> 'd env \<Rightarrow> timestamp option \<Rightarrow> string \<Rightarrow> searchIndexUpdateQueue_row list \<Rightarrow> nat
     \<Rightarrow> EnqueuedTask list \<Rightarrow> 'd world \<Rightarrow> EnqueuedTask list option \<times> 'd world" where
  "paging_loop 0 e lastUpdatedAt indexName queuedItems offset articlesTasks w = (None, w)"
| "paging_loop (Suc fuel) e lastUpdatedAt indexName queuedItems offset articlesTasks w =
     (let (indexReadyRecords, w1) =
            onFetchItemsToIndex
              (case lastUpdatedAt of
                 None \<Rightarrow> None
               | Some t \<Rightarrow> Some [CreatedAtGt t, UpdatedAtGt t, IdIn (map queue_id queuedItems)])
              indexName (Some offset) (suspend e w)
      in if length indexReadyRecords = 0 then (Some articlesTasks, w1)
         else
           let (tasks, w2) =
                 updateDocumentsInBatches indexName indexReadyRecords
                   MEILISEARCH_DOCUMENT_BATCH_SIZE w1
           in paging_loop fuel e lastUpdatedAt indexName queuedItems
                (offset + length indexReadyRecords) (articlesTasks @ tasks) w2)"

text \<open>
  The result of \<^verbatim>\<open>onIndexUpdate\<close> is \<open>None\<close> when the loop has not returned within the
  fuel, \<open>Some (Inl err)\<close> when the task waiter has thrown, and \<open>Some (Inr ())\<close> when the
  function has returned.
\<close>

definition onIndexUpdate ::
  "nat \<Rightarrow> 'd env \<Rightarrow> timestamp option \<Rightarrow> string \<Rightarrow> 'd world \<Rightarrow> (error + unit) option \<times> 'd world" where
  "onIndexUpdate fuel e lastUpdatedAt indexName w =
     (if \<not> client e then (Some (Inr ()), w)
      else
        let w1 = onIndexSetup e indexName w;
            w2 = onSearchIndexDocumentsCleanup INDEX_ID w1;
            (queuedItems, w3) = queue_findMany INDEX_ID w2
        in case paging_loop fuel e lastUpdatedAt indexName queuedItems 0 [] w3 of
             (None, w4) \<Rightarrow> (None, w4)
           | (Some articlesTasks, w4) \<Rightarrow>
               let taskUids = map taskUid articlesTasks;
                   w5 = record_call (WaitForTasks taskUids) w4
               in (case waitForTasksWithRetries e taskUids of
                     Inl err \<Rightarrow> (Some (Inl err), w5)
                   | Inr u \<Rightarrow> (Some (Inr ()), w5)))"

section \<open>The update processor\<close>

text \<open>
  Modelled from the spec: \<^verbatim>\<open>createSearchIndexUpdateProcessor\<close> is a part of the
  repository that is not part of the source at hand. An incremental run uses the stored
  watermark; after a pass that has completed it persists the watermark (the time captured
  before the loop started) and deletes the consumed rows of the dirty queue; a failed pass
  leaves the watermark and the dirty queue untouched.
\<close>

definition processor_update ::
  "nat \<Rightarrow> 'd env \<Rightarrow> timestamp \<Rightarrow> 'd world \<Rightarrow> (error + unit) option \<times> 'd world" where
  "processor_update fuel e now w =
     (let consumed = map queue_id (filter (\<lambda>r. queue_type r = INDEX_ID) (db_searchIndexUpdateQueue w))
      in case onIndexUpdate fuel e (lastUpdate w) INDEX_ID w of
           (Some (Inr u), w') \<Rightarrow>
             (Some (Inr ()),
              w'\<lparr>lastUpdate := Some now,
                 db_searchIndexUpdateQueue :=
                   filter (\<lambda>r. \<not> (queue_type r = INDEX_ID \<and> queue_id r \<in> set consumed))
                     (db_searchIndexUpdateQueue w'),
                 calls := calls w' @ [SetLastUpdate now, QueueDeleteMany INDEX_ID consumed]\<rparr>)
         | (r, w') \<Rightarrow> (r, w'))"

section \<open>Reading the recorded calls\<close>

text \<open>The calls that were made between two states of one run.\<close>

definition calls_during :: "'d world \<Rightarrow> 'd world \<Rightarrow> 'd call list" where
  "calls_during w w' = drop (length (calls w)) (calls w')"

fun is_fetch :: "'d call \<Rightarrow> bool" where
  "is_fetch (ArticleFindMany sk tk wo) = True"
| "is_fetch c = False"

fun is_queue_read :: "'d call \<Rightarrow> bool" where
  "is_queue_read (QueueFindMany ty) = True"
| "is_queue_read c = False"

fun is_cleanup :: "'d call \<Rightarrow> bool" where
  "is_cleanup (DocumentsCleanup n) = True"
| "is_cleanup c = False"

fun is_settings_update :: "'d call \<Rightarrow> bool" where
  "is_settings_update (UpdateSearchableAttributes n xs) = True"
| "is_settings_update (UpdateSortableAttributes n xs) = True"
| "is_settings_update (UpdateFilterableAttributes n xs) = True"
| "is_settings_update c = False"

fun is_commit :: "'d call \<Rightarrow> bool" where
  "is_commit (SetLastUpdate t) = True"
| "is_commit (QueueDeleteMany ty ids) = True"
| "is_commit c = False"

text \<open>The sub-batches that the calls submit, and the filters that the calls send to the store.\<close>

fun submissions :: "'d call list \<Rightarrow> 'd ArticleSearchIndexRecord list list" where
  "submissions [] = []"
| "submissions (UpdateDocuments n b # cs) = b # submissions cs"
| "submissions (c # cs) = submissions cs"

fun fetch_filters :: "'d call list \<Rightarrow> ArticleWhereInput list option list" where
  "fetch_filters [] = []"
| "fetch_filters (ArticleFindMany sk tk wo # cs) = wo # fetch_filters cs"
| "fetch_filters (c # cs) = fetch_filters cs"

text \<open>
  The calls of one iteration of the paging loop: a page read with the given filter, and
  submissions to the given index.
\<close>

fun loop_call :: "ArticleWhereInput list option \<Rightarrow> string \<Rightarrow> 'd call \<Rightarrow> bool" where
  "loop_call wo n (ArticleFindMany sk tk wo') = (tk = READ_BATCH_SIZE \<and> wo' = wo)"
| "loop_call wo n (UpdateDocuments n' b) = (n' = n)"
| "loop_call wo n c = False"

text \<open>The calls of the index setup.\<close>

fun setup_call :: "'d call \<Rightarrow> bool" where
  "setup_call (GetOrCreateIndex n) = True"
| "setup_call (GetSettings n) = True"
| "setup_call (UpdateSearchableAttributes n xs) = True"
| "setup_call (UpdateSortableAttributes n xs) = True"
| "setup_call (UpdateFilterableAttributes n xs) = True"
| "setup_call c = False"

fun is_wait :: "'d call \<Rightarrow> bool" where
  "is_wait (WaitForTasks ids) = True"
| "is_wait c = False"

section \<open>Example data\<close>

text \<open>
  Five articles: the first is published and newer than the watermark 10; the second is
  queued but not published; the third is old, published, queued, and has no all-time
  metrics row and no tag; the fourth is updated after the watermark but violates the terms
  of service; the fifth is old, published and not queued.
\<close>

definition example_metric :: "MetricTimeframe \<Rightarrow> int \<Rightarrow> articleMetric" where
  "example_metric tf v =
     \<lparr>timeframe = tf, commentCount = v, cryCount = 0, dislikeCount = 0, favoriteCount = v + 1,
      heartCount = 0, hideCount = 0, laughCount = 0, viewCount = v + 2, likeCount = 0\<rparr>"

definition example_articles :: "unit article list" where
  "example_articles =
     [\<lparr>article_id = 1, createdAt = 20, updatedAt = 20, publishedAt = Some 20,
       tosViolation = False,
       metrics = [example_metric Day 3, example_metric AllTime 7],
       tags = [\<lparr>tag = \<lparr>name = ''news''\<rparr>\<rparr>, \<lparr>tag = \<lparr>name = ''guide''\<rparr>\<rparr>], detail = ()\<rparr>,
      \<lparr>article_id = 2, createdAt = 1, updatedAt = 1, publishedAt = None,
       tosViolation = False, metrics = [example_metric AllTime 1], tags = [], detail = ()\<rparr>,
      \<lparr>article_id = 3, createdAt = 1, updatedAt = 1, publishedAt = Some 1,
       tosViolation = False, metrics = [example_metric Day 4], tags = [], detail = ()\<rparr>,
      \<lparr>article_id = 4, createdAt = 1, updatedAt = 30, publishedAt = Some 1,
       tosViolation = True, metrics = [], tags = [], detail = ()\<rparr>,
      \<lparr>article_id = 5, createdAt = 1, updatedAt = 1, publishedAt = Some 1,
       tosViolation = False, metrics = [example_metric AllTime 2],
       tags = [\<lparr>tag = \<lparr>name = ''news''\<rparr>\<rparr>], detail = ()\<rparr>]"

text \<open>The queue holds the third article twice, and a row of another entity type.\<close>

definition example_queue :: "searchIndexUpdateQueue_row list" where
  "example_queue =
     [\<lparr>queue_type = ''articles'', queue_id = 2\<rparr>, \<lparr>queue_type = ''articles'', queue_id = 3\<rparr>,
      \<lparr>queue_type = ''articles'', queue_id = 3\<rparr>, \<lparr>queue_type = ''models'', queue_id = 5\<rparr>]"

definition example_world :: "unit world" where
  "example_world =
     \<lparr>db_article = example_articles, db_searchIndexUpdateQueue = example_queue,
      lastUpdate = Some 10, calls = [], nextTaskUid = 0, awaits = 0\<rparr>"

text \<open>
  A client is present, the index exists with empty settings, every task has succeeded at
  every poll, and no other writer touches the store.
\<close>

definition example_env :: "unit env" where
  "example_env =
     \<lparr>client = True, getOrCreateIndex = (\<lambda>n. True),
      getSettings = (\<lambda>n. \<lparr>searchableAttributes = [], sortableAttributes = [],
                            filterableAttributes = []\<rparr>),
      task_status = (\<lambda>t k. Succeeded), maxRetries = 2,
      article_writers = (\<lambda>k xs. xs), queue_writers = (\<lambda>k xs. xs)\<rparr>"

text \<open>
  An index whose settings already are the desired attribute lists, in the sorted form in
  which the service returns them.
\<close>

definition settled_settings :: Settings where
  "settled_settings =
     \<lparr>searchableAttributes = [''content'', ''tags'', ''title'', ''user.username''],
      sortableAttributes = [''createdAt'', ''metrics.commentCount'',
                            ''metrics.favoriteCount'', ''metrics.viewCount''],
      filterableAttributes = [''tags'']\<rparr>"

fun settled_getSettings :: "string \<Rightarrow> Settings" where
  "settled_getSettings n = settled_settings"

definition settled_env :: "unit env" where
  "settled_env = example_env\<lparr>getSettings := settled_getSettings\<rparr>"

text \<open>No client handle.\<close>

definition no_client_env :: "unit env" where
  "no_client_env = example_env\<lparr>client := False\<rparr>"

text \<open>
  The zero-valued default metrics object, as the specification words it: every metrics
  field present, with the value zero.
\<close>

definition zero_valued_metrics :: "(string \<times> int) list" where
  "zero_valued_metrics =
     [(''commentCount'', 0), (''cryCount'', 0), (''dislikeCount'', 0), (''favoriteCount'', 0),
      (''heartCount'', 0), (''hideCount'', 0), (''laughCount'', 0), (''viewCount'', 0),
      (''likeCount'', 0)]"

text \<open>A store of 57 articles, all of them published.\<close>

definition example_articles_57 :: "unit article list" where
  "example_articles_57 =
     map (\<lambda>i. \<lparr>article_id = int i, createdAt = 20, updatedAt = 20, publishedAt = Some 20,
                tosViolation = False, metrics = [], tags = [], detail = ()\<rparr>) [0..<57]"

definition example_world_57 :: "unit world" where
  "example_world_57 = example_world\<lparr>db_article := example_articles_57\<rparr>"

text \<open>Two states that differ at most in the table of the dirty queue.\<close>

definition same_but_queue :: "'d world \<Rightarrow> 'd world \<Rightarrow> bool" where
  "same_but_queue w w' \<longleftrightarrow>
     db_article w = db_article w' \<and> lastUpdate w = lastUpdate w' \<and> calls w = calls w' \<and>
     nextTaskUid w = nextTaskUid w' \<and> awaits w = awaits w'"

text \<open>Another writer that enqueues the fifth article at every suspension point.\<close>

fun enqueue_article_5 :: "nat \<Rightarrow> searchIndexUpdateQueue_row list \<Rightarrow> searchIndexUpdateQueue_row list" where
  "enqueue_article_5 k rows = rows @ [\<lparr>queue_type = ''articles'', queue_id = 5\<rparr>]"

text \<open>An index service whose tasks stay pending at every poll.\<close>

fun always_pending :: "nat \<Rightarrow> nat \<Rightarrow> TaskStatus" where
  "always_pending t k = Pending"

definition pending_env :: "unit env" where
  "pending_env = example_env\<lparr>task_status := always_pending\<rparr>"

section \<open>Auxiliary facts about the state and the recorded calls\<close>

lemma record_call_fields [simp]:
  "calls (record_call c w) = calls w @ [c]"
  "db_article (record_call c w) = db_article w"
  "db_searchIndexUpdateQueue (record_call c w) = db_searchIndexUpdateQueue w"
  "lastUpdate (record_call c w) = lastUpdate w"
  "nextTaskUid (record_call c w) = nextTaskUid w"
  "awaits (record_call c w) = awaits w"
  by (simp_all add: record_call_def)

lemma enqueue_fields [simp]:
  "fst (enqueue c w) = \<lparr>taskUid = nextTaskUid w\<rparr>"
  "calls (snd (enqueue c w)) = calls w @ [c]"
  "db_article (snd (enqueue c w)) = db_article w"
  "db_searchIndexUpdateQueue (snd (enqueue c w)) = db_searchIndexUpdateQueue w"
  "lastUpdate (snd (enqueue c w)) = lastUpdate w"
  "nextTaskUid (snd (enqueue c w)) = Suc (nextTaskUid w)"
  "awaits (snd (enqueue c w)) = awaits w"
  by (simp_all add: enqueue_def)

lemma suspend_fields [simp]:
  "calls (suspend e w) = calls w"
  "db_article (suspend e w) = article_writers e (awaits w) (db_article w)"
  "db_searchIndexUpdateQueue (suspend e w) = queue_writers e (awaits w) (db_searchIndexUpdateQueue w)"
  "lastUpdate (suspend e w) = lastUpdate w"
  "nextTaskUid (suspend e w) = nextTaskUid w"
  "awaits (suspend e w) = Suc (awaits w)"
  by (simp_all add: suspend_def)

lemma submit_all_fields:
  "calls (snd (submit_all n bs w)) = calls w @ map (UpdateDocuments n) bs"
  "db_article (snd (submit_all n bs w)) = db_article w"
  "db_searchIndexUpdateQueue (snd (submit_all n bs w)) = db_searchIndexUpdateQueue w"
  "lastUpdate (snd (submit_all n bs w)) = lastUpdate w"
  "nextTaskUid (snd (submit_all n bs w)) = nextTaskUid w + length bs"
  "awaits (snd (submit_all n bs w)) = awaits w"
  by (induction bs arbitrary: w; simp add: split_beta Let_def)+

lemma batches_concat: "0 < n \<Longrightarrow> concat (batches n xs) = xs"
  by (induction n xs rule: batches.induct) (subst batches.simps, simp)

lemma batches_lengths:
  "0 < n \<Longrightarrow> map length (batches n xs) =
     replicate (length xs div n) n @ (if length xs mod n = 0 then [] else [length xs mod n])"
proof (induction n xs rule: batches.induct)
  case (1 n xs)
  show ?case
  proof (cases "xs = []")
    case True
    then show ?thesis by (subst batches.simps) simp
  next
    case False
    show ?thesis
    proof (cases "length xs < n")
      case True
      with False 1 show ?thesis
        by (subst batches.simps) (simp add: batches.simps[of n "[]"])
    next
      case ge: False
      then have d: "length xs div n = Suc ((length xs - n) div n)"
        using 1(2) by (simp add: le_div_geq)
      have m: "length xs mod n = (length xs - n) mod n"
        using ge 1(2) by (simp add: le_mod_geq)
      from ge False 1 show ?thesis
        by (subst batches.simps) (simp add: d m min_def)
    qed
  qed
qed

lemma fetch_snd:
  "snd (onFetchItemsToIndex wo n sk w) =
     record_call (ArticleFindMany (case sk of None \<Rightarrow> 0 | Some s \<Rightarrow> s) READ_BATCH_SIZE wo) w"
  by (simp add: onFetchItemsToIndex_def Let_def)

lemma fetch_fst:
  "fst (onFetchItemsToIndex wo n sk w) =
     map (\<lambda>a. indexReadyRecord (article_select a))
       (take READ_BATCH_SIZE (drop (case sk of None \<Rightarrow> 0 | Some s \<Rightarrow> s)
          (filter (article_where wo) (db_article w))))"
  by (simp add: onFetchItemsToIndex_def Let_def findMany_def)

lemma updateDocumentsInBatches_fields:
  "calls (snd (updateDocumentsInBatches n ds k w)) = calls w @ map (UpdateDocuments n) (batches k ds)"
  "db_article (snd (updateDocumentsInBatches n ds k w)) = db_article w"
  "db_searchIndexUpdateQueue (snd (updateDocumentsInBatches n ds k w)) = db_searchIndexUpdateQueue w"
  "lastUpdate (snd (updateDocumentsInBatches n ds k w)) = lastUpdate w"
  "nextTaskUid (snd (updateDocumentsInBatches n ds k w)) = nextTaskUid w + length (batches k ds)"
  "awaits (snd (updateDocumentsInBatches n ds k w)) = awaits w"
  by (simp_all add: updateDocumentsInBatches_def submit_all_fields)

lemma paging_loop_Suc:
  "paging_loop (Suc fuel) e lu n q off ts w =
     (let wo = (case lu of None \<Rightarrow> None
                | Some t \<Rightarrow> Some [CreatedAtGt t, UpdatedAtGt t, IdIn (map queue_id q)]);
          r = onFetchItemsToIndex wo n (Some off) (suspend e w)
      in if fst r = [] then (Some ts, snd r)
         else let s = updateDocumentsInBatches n (fst r) MEILISEARCH_DOCUMENT_BATCH_SIZE (snd r)
              in paging_loop fuel e lu n q (off + length (fst r)) (ts @ fst s) (snd s))"
  apply (subst paging_loop.simps(2))
  apply (simp only: Let_def split_beta length_0_conv)
  done

lemma paging_loop_calls:
  "\<exists>ext. calls (snd (paging_loop fuel e lu n q off ts w)) = calls w @ ext \<and>
     list_all (loop_call (case lu of None \<Rightarrow> None
                | Some t \<Rightarrow> Some [CreatedAtGt t, UpdatedAtGt t, IdIn (map queue_id q)]) n) ext"
proof (induction fuel arbitrary: off ts w)
  case 0
  then show ?case by simp
next
  case (Suc fuel)
  define wo where "wo = (case lu of None \<Rightarrow> None
                | Some t \<Rightarrow> Some [CreatedAtGt t, UpdatedAtGt t, IdIn (map queue_id q)])"
  define r where "r = onFetchItemsToIndex wo n (Some off) (suspend e w)"
  define s where "s = updateDocumentsInBatches n (fst r) MEILISEARCH_DOCUMENT_BATCH_SIZE (snd r)"
  have step: "paging_loop (Suc fuel) e lu n q off ts w =
      (if fst r = [] then (Some ts, snd r)
       else paging_loop fuel e lu n q (off + length (fst r)) (ts @ fst s) (snd s))"
    unfolding wo_def r_def s_def by (simp only: paging_loop_Suc Let_def)
  have cr: "calls (snd r) = calls w @ [ArticleFindMany off READ_BATCH_SIZE wo]"
    unfolding r_def by (simp add: fetch_snd)
  have cs: "calls (snd s) = calls (snd r) @
      map (UpdateDocuments n) (batches MEILISEARCH_DOCUMENT_BATCH_SIZE (fst r))"
    unfolding s_def by (simp add: updateDocumentsInBatches_fields)
  show ?case
  proof (cases "fst r = []")
    case True
    then show ?thesis
      unfolding step wo_def[symmetric] using cr by simp
  next
    case False
    have "\<exists>ext. calls (snd (paging_loop fuel e lu n q (off + length (fst r)) (ts @ fst s) (snd s)))
        = calls (snd s) @ ext \<and> list_all (loop_call wo n) ext"
      unfolding wo_def by (rule Suc.IH)
    then obtain ext where ext:
      "calls (snd (paging_loop fuel e lu n q (off + length (fst r)) (ts @ fst s) (snd s)))
        = calls (snd s) @ ext" "list_all (loop_call wo n) ext"
      by (elim exE conjE)
    have "list_all (loop_call wo n)
       ([ArticleFindMany off READ_BATCH_SIZE wo] @
        map (UpdateDocuments n) (batches MEILISEARCH_DOCUMENT_BATCH_SIZE (fst r)) @ ext)"
      using ext(2) by (auto simp: list_all_iff)
    moreover have
      "calls (snd (paging_loop fuel e lu n q (off + length (fst r)) (ts @ fst s) (snd s)))
       = calls w @ ([ArticleFindMany off READ_BATCH_SIZE wo] @
        map (UpdateDocuments n) (batches MEILISEARCH_DOCUMENT_BATCH_SIZE (fst r)) @ ext)"
      using ext(1) cr cs by simp
    ultimately show ?thesis
      unfolding step wo_def[symmetric] using False by (simp only: if_False) blast
  qed
qed

lemma calls_during_append: "calls w' = calls w @ ext \<Longrightarrow> calls_during w w' = ext"
  by (simp add: calls_during_def)

lemma onIndexSetup_calls:
  "calls (onIndexSetup e n w) = calls w @
     (if \<not> client e then []
      else if \<not> getOrCreateIndex e n then [GetOrCreateIndex n]
      else [GetOrCreateIndex n, GetSettings n,
            UpdateSearchableAttributes n [''title'', ''content'', ''tags'', ''user.username''],
            UpdateSortableAttributes n [''createdAt'', ''metrics.commentCount'',
                             ''metrics.favoriteCount'', ''metrics.viewCount'']] @
           (if filterableAttributes (getSettings e n) = [''tags''] then []
            else [UpdateFilterableAttributes n [''tags'']]))"
  by (auto simp add: onIndexSetup_def Let_def split_beta)

lemma onIndexSetup_fields:
  "db_article (onIndexSetup e n w) = db_article w"
  "db_searchIndexUpdateQueue (onIndexSetup e n w) = db_searchIndexUpdateQueue w"
  "lastUpdate (onIndexSetup e n w) = lastUpdate w"
  "awaits (onIndexSetup e n w) = awaits w"
  by (simp_all add: onIndexSetup_def Let_def split_beta)

lemma onIndexSetup_setup_calls:
  "\<exists>ext. calls (onIndexSetup e n w) = calls w @ ext \<and> list_all setup_call ext"
  by (simp add: onIndexSetup_calls)

lemma cleanup_fields [simp]:
  "calls (onSearchIndexDocumentsCleanup n w) = calls w @ [DocumentsCleanup n]"
  "db_article (onSearchIndexDocumentsCleanup n w) = db_article w"
  "db_searchIndexUpdateQueue (onSearchIndexDocumentsCleanup n w) = db_searchIndexUpdateQueue w"
  "lastUpdate (onSearchIndexDocumentsCleanup n w) = lastUpdate w"
  "awaits (onSearchIndexDocumentsCleanup n w) = awaits w"
  by (simp_all add: onSearchIndexDocumentsCleanup_def)

lemma queue_findMany_fields [simp]:
  "fst (queue_findMany ty w) = filter (\<lambda>r. queue_type r = ty) (db_searchIndexUpdateQueue w)"
  "snd (queue_findMany ty w) = record_call (QueueFindMany ty) w"
  by (simp_all add: queue_findMany_def)

lemma onIndexUpdate_unfold:
  "client e \<Longrightarrow> onIndexUpdate fuel e lu n w =
     (let q = filter (\<lambda>r. queue_type r = INDEX_ID) (db_searchIndexUpdateQueue w);
          w3 = record_call (QueueFindMany INDEX_ID)
                 (onSearchIndexDocumentsCleanup INDEX_ID (onIndexSetup e n w));
          p = paging_loop fuel e lu n q 0 [] w3
      in case fst p of
           None \<Rightarrow> (None, snd p)
         | Some articlesTasks \<Rightarrow>
             (case waitForTasksWithRetries e (map taskUid articlesTasks) of
                Inl err \<Rightarrow> Some (Inl err) | Inr u \<Rightarrow> Some (Inr ()),
              record_call (WaitForTasks (map taskUid articlesTasks)) (snd p)))"
  by (simp add: onIndexUpdate_def Let_def split_beta onIndexSetup_fields
        split: option.splits sum.splits prod.splits)

lemma fetch_filters_append: "fetch_filters (xs @ ys) = fetch_filters xs @ fetch_filters ys"
  by (induction xs rule: fetch_filters.induct) simp_all

lemma fetch_filters_setup: "list_all setup_call xs \<Longrightarrow> fetch_filters xs = []"
  by (induction xs rule: fetch_filters.induct) simp_all

lemma fetch_filters_wait: "list_all is_wait xs \<Longrightarrow> fetch_filters xs = []"
  by (induction xs rule: fetch_filters.induct) simp_all

lemma fetch_filters_loop:
  "list_all (loop_call wo n) xs \<Longrightarrow> list_all (\<lambda>wo'. wo' = wo) (fetch_filters xs)"
  by (induction xs rule: fetch_filters.induct) simp_all

lemma filter_cleanup_setup: "list_all setup_call xs \<Longrightarrow> filter is_cleanup xs = []"
  by (induction xs rule: fetch_filters.induct) simp_all

lemma filter_cleanup_loop: "list_all (loop_call wo n) xs \<Longrightarrow> filter is_cleanup xs = []"
  by (induction xs rule: fetch_filters.induct) simp_all

lemma filter_cleanup_wait: "list_all is_wait xs \<Longrightarrow> filter is_cleanup xs = []"
  by (induction xs rule: fetch_filters.induct) simp_all

lemma onIndexUpdate_calls:
  assumes "client e"
  shows "\<exists>sx lx wx. calls (snd (onIndexUpdate fuel e lu n w)) =
            calls w @ sx @ [DocumentsCleanup INDEX_ID, QueueFindMany INDEX_ID] @ lx @ wx \<and>
          list_all setup_call sx \<and>
          list_all (loop_call (case lu of None \<Rightarrow> None
                | Some t \<Rightarrow> Some [CreatedAtGt t, UpdatedAtGt t,
                     IdIn (map queue_id (filter (\<lambda>r. queue_type r = INDEX_ID)
                        (db_searchIndexUpdateQueue w)))]) n) lx \<and>
          list_all is_wait wx"
proof -
  define q where "q = filter (\<lambda>r. queue_type r = INDEX_ID) (db_searchIndexUpdateQueue w)"
  define w3 where "w3 = record_call (QueueFindMany INDEX_ID)
                 (onSearchIndexDocumentsCleanup INDEX_ID (onIndexSetup e n w))"
  define p where "p = paging_loop fuel e lu n q 0 [] w3"
  define wo where "wo = (case lu of None \<Rightarrow> None
                | Some t \<Rightarrow> Some [CreatedAtGt t, UpdatedAtGt t, IdIn (map queue_id q)])"
  obtain sx where sx: "calls (onIndexSetup e n w) = calls w @ sx" "list_all setup_call sx"
    using onIndexSetup_setup_calls by blast
  have c3: "calls w3 = calls w @ sx @ [DocumentsCleanup INDEX_ID, QueueFindMany INDEX_ID]"
    unfolding w3_def using sx(1) by simp
  have "\<exists>ext. calls (snd p) = calls w3 @ ext \<and> list_all (loop_call wo n) ext"
    unfolding p_def wo_def by (rule paging_loop_calls)
  then obtain lx where lx: "calls (snd p) = calls w3 @ lx" "list_all (loop_call wo n) lx"
    by (elim exE conjE)
  have u: "onIndexUpdate fuel e lu n w =
      (case fst p of
           None \<Rightarrow> (None, snd p)
         | Some articlesTasks \<Rightarrow>
             (case waitForTasksWithRetries e (map taskUid articlesTasks) of
                Inl err \<Rightarrow> Some (Inl err) | Inr u \<Rightarrow> Some (Inr ()),
              record_call (WaitForTasks (map taskUid articlesTasks)) (snd p)))"
    unfolding p_def w3_def q_def using assms by (simp only: onIndexUpdate_unfold Let_def)
  show ?thesis
  proof (cases "fst p")
    case None
    then have "calls (snd (onIndexUpdate fuel e lu n w)) =
        calls w @ sx @ [DocumentsCleanup INDEX_ID, QueueFindMany INDEX_ID] @ lx @ []"
      using u lx(1) c3 by simp
    then show ?thesis
      using sx(2) lx(2) unfolding wo_def q_def by (intro exI[of _ sx] exI[of _ lx] exI[of _ "[]"]) simp
  next
    case (Some ts)
    then have "calls (snd (onIndexUpdate fuel e lu n w)) =
        calls w @ sx @ [DocumentsCleanup INDEX_ID, QueueFindMany INDEX_ID] @ lx @
          [WaitForTasks (map taskUid ts)]"
      using u lx(1) c3 by simp
    then show ?thesis
      using sx(2) lx(2) unfolding wo_def q_def
      by (intro exI[of _ sx] exI[of _ lx] exI[of _ "[WaitForTasks (map taskUid ts)]"]) simp
  qed
qed

lemma onIndexUpdate_no_client:
  "\<not> client e \<Longrightarrow> onIndexUpdate fuel e lu n w = (Some (Inr ()), w)"
  by (simp add: onIndexUpdate_def)

lemma INDEX_ID_not_SWAP: "INDEX_ID \<noteq> SWAP_INDEX_ID"
  by (simp add: SWAP_INDEX_ID_def)

lemma first_of_filter:
  "(case filter P xs of [] \<Rightarrow> a | m # ms \<Rightarrow> f m) = (case find P xs of None \<Rightarrow> a | Some m \<Rightarrow> f m)"
  by (induction xs) simp_all

lemma indexReadyRecord_select:
  "indexReadyRecord (article_select a) =
     \<lparr>record_id = article_id a, record_detail = detail a,
      record_metrics = (case find (\<lambda>m. timeframe m = AllTime) (metrics a) of
                          None \<Rightarrow> [] | Some m \<Rightarrow> metric_fields m),
      record_tags = map (\<lambda>articleTag. name (tag articleTag)) (tags a)\<rparr>"
  by (simp add: indexReadyRecord_def article_select_def first_of_filter)

lemma submissions_append: "submissions (xs @ ys) = submissions xs @ submissions ys"
  by (induction xs rule: submissions.induct) simp_all

lemma submissions_map: "submissions (map (UpdateDocuments n) bs) = bs"
  by (induction bs) simp_all

lemma updateDocumentsInBatches_submissions:
  "submissions (calls_during w (snd (updateDocumentsInBatches n ds k w))) = batches k ds"
  by (simp add: calls_during_def updateDocumentsInBatches_fields submissions_map)

lemma calls_during_split:
  "calls w1 = calls w @ a \<Longrightarrow> calls w2 = calls w1 @ b \<Longrightarrow>
     calls_during w w2 = a @ calls_during w1 w2"
  by (simp add: calls_during_def)

lemma take_drop_length: "take k xs @ drop (length (take k xs)) xs = xs"
  by (cases "k \<le> length xs") (simp_all add: min_def)

lemma fetch_empty_iff:
  "fst (onFetchItemsToIndex wo n sk w) = [] \<longleftrightarrow>
     length (filter (article_where wo) (db_article w)) \<le> (case sk of None \<Rightarrow> 0 | Some s \<Rightarrow> s)"
  by (simp add: fetch_fst READ_BATCH_SIZE_def)

lemma paging_loop_static:
  fixes e :: "'d env" and lu q
  defines "F \<equiv> (case lu of None \<Rightarrow> None
                | Some t \<Rightarrow> Some [CreatedAtGt t, UpdatedAtGt t, IdIn (map queue_id q)])"
  assumes st: "article_writers e = (\<lambda>k xs. xs)"
  shows "length (filter (article_where F) (db_article w)) - off < fuel \<Longrightarrow>
     (\<exists>ts'. fst (paging_loop fuel e lu n q off ts w) = Some ts') \<and>
     concat (submissions (calls_during w (snd (paging_loop fuel e lu n q off ts w)))) =
       map (\<lambda>a. indexReadyRecord (article_select a))
         (drop off (filter (article_where F) (db_article w))) \<and>
     db_article (snd (paging_loop fuel e lu n q off ts w)) = db_article w"
proof (induction fuel arbitrary: off ts w)
  case 0
  then show ?case by simp
next
  case (Suc fuel)
  define r where "r = onFetchItemsToIndex F n (Some off) (suspend e w)"
  define s where "s = updateDocumentsInBatches n (fst r) MEILISEARCH_DOCUMENT_BATCH_SIZE (snd r)"
  define M where "M = filter (article_where F) (db_article w)"
  have step: "paging_loop (Suc fuel) e lu n q off ts w =
      (if fst r = [] then (Some ts, snd r)
       else paging_loop fuel e lu n q (off + length (fst r)) (ts @ fst s) (snd s))"
    unfolding F_def r_def s_def by (simp only: paging_loop_Suc Let_def)
  have fr: "fst r = map (\<lambda>a. indexReadyRecord (article_select a)) (take READ_BATCH_SIZE (drop off M))"
    unfolding r_def M_def by (simp add: fetch_fst st)
  have cr: "calls (snd r) = calls w @ [ArticleFindMany off READ_BATCH_SIZE F]"
    unfolding r_def by (simp add: fetch_snd)
  have dr: "db_article (snd r) = db_article w"
    unfolding r_def by (simp add: fetch_snd st)
  have cs: "calls (snd s) = calls w @ ArticleFindMany off READ_BATCH_SIZE F #
      map (UpdateDocuments n) (batches MEILISEARCH_DOCUMENT_BATCH_SIZE (fst r))"
    unfolding s_def by (simp add: updateDocumentsInBatches_fields cr)
  have ds: "db_article (snd s) = db_article w"
    unfolding s_def by (simp add: updateDocumentsInBatches_fields dr)
  show ?case
  proof (cases "fst r = []")
    case True
    then have "take READ_BATCH_SIZE (drop off M) = []"
      using fr by simp
    then have "drop off M = []"
      by (simp add: READ_BATCH_SIZE_def)
    then show ?thesis
      unfolding step M_def[symmetric] using True cr dr
      by (simp add: calls_during_def)
  next
    case False
    let ?P = "paging_loop fuel e lu n q (off + length (fst r)) (ts @ fst s) (snd s)"
    have pos: "0 < length (fst r)" using False by simp
    have lt: "off < length M"
      using False fr by (cases "off < length M") simp_all
    have "length M - (off + length (fst r)) < fuel"
      using Suc.prems pos lt unfolding M_def by linarith
    then have pre: "length (filter (article_where F) (db_article (snd s))) - (off + length (fst r)) < fuel"
      by (simp add: ds M_def)
    note ih = Suc.IH[OF pre, of "ts @ fst s"]
    obtain ext where ext: "calls (snd ?P) = calls (snd s) @ ext"
      using paging_loop_calls by blast
    have cd: "calls_during w (snd ?P) =
        (ArticleFindMany off READ_BATCH_SIZE F #
           map (UpdateDocuments n) (batches MEILISEARCH_DOCUMENT_BATCH_SIZE (fst r))) @
        calls_during (snd s) (snd ?P)"
      using cs ext by (rule calls_during_split)
    have bc: "concat (batches MEILISEARCH_DOCUMENT_BATCH_SIZE (fst r)) = fst r"
      by (rule batches_concat) (simp add: MEILISEARCH_DOCUMENT_BATCH_SIZE_def)
    have len: "length (fst r) = length (take READ_BATCH_SIZE (drop off M))"
      by (simp add: fr)
    have "concat (submissions (calls_during w (snd ?P))) =
        fst r @ map (\<lambda>a. indexReadyRecord (article_select a)) (drop (off + length (fst r)) M)"
      using ih by (simp add: cd submissions_append submissions_map bc ds M_def)
    also have "\<dots> = map (\<lambda>a. indexReadyRecord (article_select a))
        (take READ_BATCH_SIZE (drop off M) @
         drop (length (take READ_BATCH_SIZE (drop off M))) (drop off M))"
      unfolding len by (simp only: fr map_append drop_drop add.commute)
    also have "\<dots> = map (\<lambda>a. indexReadyRecord (article_select a)) (drop off M)"
      by (simp only: take_drop_length)
    finally have docs: "concat (submissions (calls_during w (snd ?P))) =
        map (\<lambda>a. indexReadyRecord (article_select a)) (drop off M)" .
    show ?thesis
      unfolding step M_def[symmetric] using False ih docs ds
      by (simp add: M_def)
  qed
qed

lemma paging_loop_returns_on_empty:
  fixes e :: "'d env" and lu q
  defines "F \<equiv> (case lu of None \<Rightarrow> None
                | Some t \<Rightarrow> Some [CreatedAtGt t, UpdatedAtGt t, IdIn (map queue_id q)])"
  shows "fst (paging_loop fuel e lu n q off ts w) = Some ts' \<Longrightarrow>
     (\<exists>sk. calls (snd (paging_loop fuel e lu n q off ts w)) \<noteq> [] \<and>
           last (calls (snd (paging_loop fuel e lu n q off ts w))) =
             ArticleFindMany sk READ_BATCH_SIZE F \<and>
           length (filter (article_where F)
                     (db_article (snd (paging_loop fuel e lu n q off ts w)))) \<le> sk)"
proof (induction fuel arbitrary: off ts w)
  case 0
  then show ?case by simp
next
  case (Suc fuel)
  define r where "r = onFetchItemsToIndex F n (Some off) (suspend e w)"
  define s where "s = updateDocumentsInBatches n (fst r) MEILISEARCH_DOCUMENT_BATCH_SIZE (snd r)"
  have step: "paging_loop (Suc fuel) e lu n q off ts w =
      (if fst r = [] then (Some ts, snd r)
       else paging_loop fuel e lu n q (off + length (fst r)) (ts @ fst s) (snd s))"
    unfolding F_def r_def s_def by (simp only: paging_loop_Suc Let_def)
  show ?case
  proof (cases "fst r = []")
    case True
    then have "length (filter (article_where F) (db_article (suspend e w))) \<le> off"
      unfolding r_def by (simp add: fetch_empty_iff)
    then show ?thesis
      unfolding step using True by (simp add: r_def fetch_snd)
  next
    case False
    then have "fst (paging_loop fuel e lu n q (off + length (fst r)) (ts @ fst s) (snd s)) = Some ts'"
      using Suc.prems unfolding step by simp
    from Suc.IH[OF this] show ?thesis
      unfolding step using False by simp
  qed
qed

lemma submit_all_fst:
  "fst (submit_all n bs w) =
     map (\<lambda>i. \<lparr>taskUid = i\<rparr>) [nextTaskUid w ..< nextTaskUid w + length bs]"
proof (induction bs arbitrary: w)
  case Nil
  then show ?case by simp
next
  case (Cons b bs)
  have "[nextTaskUid w ..< nextTaskUid w + Suc (length bs)] =
      nextTaskUid w # [Suc (nextTaskUid w) ..< nextTaskUid w + Suc (length bs)]"
    by (rule upt_conv_Cons) simp
  then have u: "[nextTaskUid w ..< Suc (nextTaskUid w + length bs)] =
      nextTaskUid w # [Suc (nextTaskUid w) ..< Suc (nextTaskUid w + length bs)]"
    by (simp only: add_Suc_right)
  show ?case
    by (simp only: submit_all.simps split_beta Let_def fst_conv snd_conv Cons.IH enqueue_fields
          list.map length_Cons add_Suc_right add_Suc u)
qed

lemma same_but_queue_refl: "same_but_queue w w"
  by (simp add: same_but_queue_def)

lemma same_but_queue_loop:
  assumes aw: "article_writers e' = article_writers e"
  shows "same_but_queue w w' \<Longrightarrow>
     fst (paging_loop fuel e' lu n q off ts w') = fst (paging_loop fuel e lu n q off ts w) \<and>
     same_but_queue (snd (paging_loop fuel e lu n q off ts w))
       (snd (paging_loop fuel e' lu n q off ts w'))"
proof (induction fuel arbitrary: off ts w w')
  case 0
  then show ?case by simp
next
  case (Suc fuel)
  define wo where "wo = (case lu of None \<Rightarrow> None
                | Some t \<Rightarrow> Some [CreatedAtGt t, UpdatedAtGt t, IdIn (map queue_id q)])"
  define r where "r = onFetchItemsToIndex wo n (Some off) (suspend e w)"
  define s where "s = updateDocumentsInBatches n (fst r) MEILISEARCH_DOCUMENT_BATCH_SIZE (snd r)"
  define r' where "r' = onFetchItemsToIndex wo n (Some off) (suspend e' w')"
  define s' where "s' = updateDocumentsInBatches n (fst r') MEILISEARCH_DOCUMENT_BATCH_SIZE (snd r')"
  have step: "paging_loop (Suc fuel) e lu n q off ts w =
      (if fst r = [] then (Some ts, snd r)
       else paging_loop fuel e lu n q (off + length (fst r)) (ts @ fst s) (snd s))"
    unfolding wo_def r_def s_def by (simp only: paging_loop_Suc Let_def)
  have step': "paging_loop (Suc fuel) e' lu n q off ts w' =
      (if fst r' = [] then (Some ts, snd r')
       else paging_loop fuel e' lu n q (off + length (fst r')) (ts @ fst s') (snd s'))"
    unfolding wo_def r'_def s'_def by (simp only: paging_loop_Suc Let_def)
  have fr: "fst r' = fst r"
    unfolding r_def r'_def using Suc.prems by (simp add: fetch_fst aw same_but_queue_def)
  have sr: "same_but_queue (snd r) (snd r')"
    unfolding r_def r'_def using Suc.prems by (simp add: fetch_snd aw same_but_queue_def)
  have fs: "fst s' = fst s"
    unfolding s_def s'_def using sr
    by (simp add: fr updateDocumentsInBatches_def submit_all_fst same_but_queue_def)
  have ss: "same_but_queue (snd s) (snd s')"
    unfolding s_def s'_def using sr
    by (simp add: fr updateDocumentsInBatches_fields same_but_queue_def)
  show ?case
  proof (cases "fst r = []")
    case True
    then show ?thesis
      unfolding step step' using sr by (simp add: fr)
  next
    case False
    then show ?thesis
      unfolding step step' using Suc.IH[OF ss] by (simp add: fr fs)
  qed
qed

lemma onIndexSetup_queue_writers:
  "onIndexSetup (e\<lparr>queue_writers := qw\<rparr>) n w = onIndexSetup e n w"
  by (simp add: onIndexSetup_def Let_def split_beta)

lemma waitForTasksWithRetries_queue_writers:
  "waitForTasksWithRetries (e\<lparr>queue_writers := qw\<rparr>) ids = waitForTasksWithRetries e ids"
  by (simp add: waitForTasksWithRetries_def)

lemma onIndexUpdate_queue_writers:
  "fst (onIndexUpdate fuel (e\<lparr>queue_writers := qw\<rparr>) lu n w) = fst (onIndexUpdate fuel e lu n w) \<and>
   same_but_queue (snd (onIndexUpdate fuel e lu n w))
     (snd (onIndexUpdate fuel (e\<lparr>queue_writers := qw\<rparr>) lu n w))"
proof (cases "client e")
  case False
  then show ?thesis
    by (simp add: onIndexUpdate_no_client same_but_queue_refl)
next
  case True
  define q where "q = filter (\<lambda>r. queue_type r = INDEX_ID) (db_searchIndexUpdateQueue w)"
  define w3 where "w3 = record_call (QueueFindMany INDEX_ID)
                 (onSearchIndexDocumentsCleanup INDEX_ID (onIndexSetup e n w))"
  define p where "p = paging_loop fuel e lu n q 0 [] w3"
  define p' where "p' = paging_loop fuel (e\<lparr>queue_writers := qw\<rparr>) lu n q 0 [] w3"
  have u: "onIndexUpdate fuel e lu n w =
      (case fst p of
           None \<Rightarrow> (None, snd p)
         | Some articlesTasks \<Rightarrow>
             (case waitForTasksWithRetries e (map taskUid articlesTasks) of
                Inl err \<Rightarrow> Some (Inl err) | Inr u \<Rightarrow> Some (Inr ()),
              record_call (WaitForTasks (map taskUid articlesTasks)) (snd p)))"
    unfolding p_def w3_def q_def using True by (simp only: onIndexUpdate_unfold Let_def)
  have c': "client (e\<lparr>queue_writers := qw\<rparr>)" using True by simp
  have u': "onIndexUpdate fuel (e\<lparr>queue_writers := qw\<rparr>) lu n w =
      (case fst p' of
           None \<Rightarrow> (None, snd p')
         | Some articlesTasks \<Rightarrow>
             (case waitForTasksWithRetries e (map taskUid articlesTasks) of
                Inl err \<Rightarrow> Some (Inl err) | Inr u \<Rightarrow> Some (Inr ()),
              record_call (WaitForTasks (map taskUid articlesTasks)) (snd p')))"
    unfolding p'_def w3_def q_def using c'
    by (simp only: onIndexUpdate_unfold Let_def onIndexSetup_queue_writers
          waitForTasksWithRetries_queue_writers)
  have "article_writers (e\<lparr>queue_writers := qw\<rparr>) = article_writers e" by simp
  from same_but_queue_loop[OF this same_but_queue_refl, of fuel lu n q 0 "[]" w3]
  have f: "fst p' = fst p" and s: "same_but_queue (snd p) (snd p')"
    unfolding p_def p'_def by simp_all
  show ?thesis
    unfolding u u' using f s
    by (cases "fst p") (simp_all add: same_but_queue_def)
qed

lemma setup_call_others:
  "list_all setup_call xs \<Longrightarrow>
     \<not> list_ex is_fetch xs \<and> \<not> list_ex is_queue_read xs \<and> \<not> list_ex is_commit xs"
  by (induction xs rule: fetch_filters.induct) simp_all

lemma loop_call_others:
  "list_all (loop_call wo n) xs \<Longrightarrow> \<not> list_ex is_queue_read xs \<and> \<not> list_ex is_commit xs"
  by (induction xs rule: fetch_filters.induct) simp_all

lemma wait_others:
  "list_all is_wait xs \<Longrightarrow> \<not> list_ex is_queue_read xs \<and> \<not> list_ex is_commit xs"
  by (induction xs rule: fetch_filters.induct) simp_all

lemma fetch_filters_of_pass:
  "list_all
     (\<lambda>wo. wo = (case lu of
                   None \<Rightarrow> None
                 | Some t \<Rightarrow>
                     Some [CreatedAtGt t, UpdatedAtGt t,
                           IdIn (map queue_id (filter (\<lambda>r. queue_type r = INDEX_ID)
                                   (db_searchIndexUpdateQueue w)))]))
     (fetch_filters (calls_during w (snd (onIndexUpdate fuel e lu n w))))"
proof (cases "client e")
  case True
  from onIndexUpdate_calls[OF True, of fuel lu n w]
  obtain sx lx wx where
    c: "calls (snd (onIndexUpdate fuel e lu n w)) =
          calls w @ sx @ [DocumentsCleanup INDEX_ID, QueueFindMany INDEX_ID] @ lx @ wx"
    and s: "list_all setup_call sx"
    and l: "list_all (loop_call (case lu of
                   None \<Rightarrow> None
                 | Some t \<Rightarrow>
                     Some [CreatedAtGt t, UpdatedAtGt t,
                           IdIn (map queue_id (filter (\<lambda>r. queue_type r = INDEX_ID)
                                   (db_searchIndexUpdateQueue w)))]) n) lx"
    and wt: "list_all is_wait wx"
    by (elim exE conjE)
  have "calls_during w (snd (onIndexUpdate fuel e lu n w)) =
      sx @ [DocumentsCleanup INDEX_ID, QueueFindMany INDEX_ID] @ lx @ wx"
    using c by (rule calls_during_append)
  then show ?thesis
    using fetch_filters_setup[OF s] fetch_filters_wait[OF wt] fetch_filters_loop[OF l]
    by (simp add: fetch_filters_append)
next
  case False
  then show ?thesis
    by (simp add: onIndexUpdate_no_client calls_during_def)
qed

lemma paging_loop_lastUpdate:
  "lastUpdate (snd (paging_loop fuel e lu n q off ts w)) = lastUpdate w"
proof (induction fuel arbitrary: off ts w)
  case 0
  then show ?case by simp
next
  case (Suc fuel)
  show ?case
    by (simp only: paging_loop_Suc Let_def)
       (simp add: Suc.IH updateDocumentsInBatches_fields fetch_snd)
qed

lemma paging_loop_queue:
  assumes "queue_writers e = (\<lambda>k xs. xs)"
  shows "db_searchIndexUpdateQueue (snd (paging_loop fuel e lu n q off ts w)) =
     db_searchIndexUpdateQueue w"
proof (induction fuel arbitrary: off ts w)
  case 0
  then show ?case by simp
next
  case (Suc fuel)
  show ?case
    by (simp only: paging_loop_Suc Let_def)
       (simp add: Suc.IH updateDocumentsInBatches_fields fetch_snd assms)
qed

lemma paging_loop_reads_first:
  "\<exists>ext. calls (snd (paging_loop (Suc fuel) e lu n q off ts w)) =
     calls w @ ArticleFindMany off READ_BATCH_SIZE
       (case lu of None \<Rightarrow> None
        | Some t \<Rightarrow> Some [CreatedAtGt t, UpdatedAtGt t, IdIn (map queue_id q)]) # ext"
proof -
  define wo where "wo = (case lu of None \<Rightarrow> None
                | Some t \<Rightarrow> Some [CreatedAtGt t, UpdatedAtGt t, IdIn (map queue_id q)])"
  define r where "r = onFetchItemsToIndex wo n (Some off) (suspend e w)"
  define s where "s = updateDocumentsInBatches n (fst r) MEILISEARCH_DOCUMENT_BATCH_SIZE (snd r)"
  have step: "paging_loop (Suc fuel) e lu n q off ts w =
      (if fst r = [] then (Some ts, snd r)
       else paging_loop fuel e lu n q (off + length (fst r)) (ts @ fst s) (snd s))"
    unfolding wo_def r_def s_def by (simp only: paging_loop_Suc Let_def)
  have cr: "calls (snd r) = calls w @ [ArticleFindMany off READ_BATCH_SIZE wo]"
    unfolding r_def by (simp add: fetch_snd)
  have cs: "calls (snd s) = calls w @ ArticleFindMany off READ_BATCH_SIZE wo #
      map (UpdateDocuments n) (batches MEILISEARCH_DOCUMENT_BATCH_SIZE (fst r))"
    unfolding s_def by (simp add: updateDocumentsInBatches_fields cr)
  show ?thesis
  proof (cases "fst r = []")
    case True
    then show ?thesis
      unfolding step wo_def[symmetric] using cr by simp
  next
    case False
    obtain ext where
      "calls (snd (paging_loop fuel e lu n q (off + length (fst r)) (ts @ fst s) (snd s))) =
         calls (snd s) @ ext"
      using paging_loop_calls by blast
    then have
      "calls (snd (paging_loop fuel e lu n q (off + length (fst r)) (ts @ fst s) (snd s))) =
         calls w @ ArticleFindMany off READ_BATCH_SIZE wo #
           (map (UpdateDocuments n) (batches MEILISEARCH_DOCUMENT_BATCH_SIZE (fst r)) @ ext)"
      using cs by simp
    then show ?thesis
      unfolding step wo_def[symmetric] using False by (simp only: if_False) blast
  qed
qed

lemma onIndexUpdate_reads_first:
  assumes "client e"
  shows "ArticleFindMany 0 READ_BATCH_SIZE
       (case lu of None \<Rightarrow> None
        | Some t \<Rightarrow> Some [CreatedAtGt t, UpdatedAtGt t,
             IdIn (map queue_id (filter (\<lambda>r. queue_type r = INDEX_ID)
                                   (db_searchIndexUpdateQueue w)))])
     \<in> set (calls_during w (snd (onIndexUpdate (Suc fuel) e lu n w)))"
proof -
  define q where "q = filter (\<lambda>r. queue_type r = INDEX_ID) (db_searchIndexUpdateQueue w)"
  define w3 where "w3 = record_call (QueueFindMany INDEX_ID)
                 (onSearchIndexDocumentsCleanup INDEX_ID (onIndexSetup e n w))"
  define p where "p = paging_loop (Suc fuel) e lu n q 0 [] w3"
  define c where "c = (ArticleFindMany 0 READ_BATCH_SIZE
       (case lu of None \<Rightarrow> None
        | Some t \<Rightarrow> Some [CreatedAtGt t, UpdatedAtGt t, IdIn (map queue_id q)]) :: 'a call)"
  obtain sx where sx: "calls (onIndexSetup e n w) = calls w @ sx"
    using onIndexSetup_setup_calls by blast
  have c3: "calls w3 = calls w @ sx @ [DocumentsCleanup INDEX_ID, QueueFindMany INDEX_ID]"
    unfolding w3_def using sx by simp
  obtain ext where ext: "calls (snd p) = calls w3 @ c # ext"
    unfolding p_def c_def using paging_loop_reads_first by blast
  have u: "onIndexUpdate (Suc fuel) e lu n w =
      (case fst p of
           None \<Rightarrow> (None, snd p)
         | Some articlesTasks \<Rightarrow>
             (case waitForTasksWithRetries e (map taskUid articlesTasks) of
                Inl err \<Rightarrow> Some (Inl err) | Inr u \<Rightarrow> Some (Inr ()),
              record_call (WaitForTasks (map taskUid articlesTasks)) (snd p)))"
    unfolding p_def w3_def q_def using assms by (simp only: onIndexUpdate_unfold Let_def)
  have "c \<in> set (calls_during w (snd (onIndexUpdate (Suc fuel) e lu n w)))"
    unfolding u using ext c3 by (cases "fst p") (simp_all add: calls_during_def)
  then show ?thesis
    unfolding c_def q_def .
qed

lemma submissions_setup: "list_all setup_call xs \<Longrightarrow> submissions xs = []"
  by (induction xs rule: submissions.induct) simp_all

lemma article_where_pass:
  "article_where (case lu of None \<Rightarrow> None
                  | Some t \<Rightarrow> Some [CreatedAtGt t, UpdatedAtGt t, IdIn ids]) a \<longleftrightarrow>
     publishedAt a \<noteq> None \<and> \<not> tosViolation a \<and>
     (case lu of None \<Rightarrow> True
      | Some t \<Rightarrow> t < createdAt a \<or> t < updatedAt a \<or> article_id a \<in> set ids)"
  by (cases lu) (simp_all add: article_where_def)

lemma onIndexUpdate_static_submissions:
  fixes e :: "'d env" and lu and w :: "'d world"
  defines "F \<equiv> (case lu of None \<Rightarrow> None
     | Some t \<Rightarrow> Some [CreatedAtGt t, UpdatedAtGt t,
         IdIn (map queue_id (filter (\<lambda>r. queue_type r = INDEX_ID)
                 (db_searchIndexUpdateQueue w)))])"
  assumes cl: "client e" and st: "article_writers e = (\<lambda>k xs. xs)"
    and fu: "length (filter (article_where F) (db_article w)) < fuel"
  shows "fst (onIndexUpdate fuel e lu n w) \<noteq> None \<and>
     concat (submissions (calls_during w (snd (onIndexUpdate fuel e lu n w)))) =
       map (\<lambda>a. indexReadyRecord (article_select a)) (filter (article_where F) (db_article w))"
proof -
  define q where "q = filter (\<lambda>r. queue_type r = INDEX_ID) (db_searchIndexUpdateQueue w)"
  define w3 where "w3 = record_call (QueueFindMany INDEX_ID)
                 (onSearchIndexDocumentsCleanup INDEX_ID (onIndexSetup e n w))"
  define p where "p = paging_loop fuel e lu n q 0 [] w3"
  have F: "F = (case lu of None \<Rightarrow> None
     | Some t \<Rightarrow> Some [CreatedAtGt t, UpdatedAtGt t, IdIn (map queue_id q)])"
    unfolding F_def q_def ..
  have d3: "db_article w3 = db_article w"
    unfolding w3_def by (simp add: onIndexSetup_fields)
  obtain sx where sx: "calls (onIndexSetup e n w) = calls w @ sx" "list_all setup_call sx"
    using onIndexSetup_setup_calls by blast
  have c3: "calls w3 = calls w @ (sx @ [DocumentsCleanup INDEX_ID, QueueFindMany INDEX_ID])"
    unfolding w3_def using sx(1) by simp
  have "length (filter (article_where (case lu of None \<Rightarrow> None
     | Some t \<Rightarrow> Some [CreatedAtGt t, UpdatedAtGt t, IdIn (map queue_id q)])) (db_article w3)) - 0
      < fuel"
    using fu by (simp add: d3 F)
  from paging_loop_static[OF st this, of n "[]"]
  obtain ts where ts: "fst p = Some ts"
    and docs: "concat (submissions (calls_during w3 (snd p))) =
       map (\<lambda>a. indexReadyRecord (article_select a)) (filter (article_where F) (db_article w))"
    unfolding p_def[symmetric] F[symmetric] d3 by auto
  obtain lx where lx: "calls (snd p) = calls w3 @ lx"
    unfolding p_def using paging_loop_calls by blast
  have u: "onIndexUpdate fuel e lu n w =
      (case fst p of
           None \<Rightarrow> (None, snd p)
         | Some articlesTasks \<Rightarrow>
             (case waitForTasksWithRetries e (map taskUid articlesTasks) of
                Inl err \<Rightarrow> Some (Inl err) | Inr u \<Rightarrow> Some (Inr ()),
              record_call (WaitForTasks (map taskUid articlesTasks)) (snd p)))"
    unfolding p_def w3_def q_def using cl by (simp only: onIndexUpdate_unfold Let_def)
  have cd: "calls_during w (snd p) =
      (sx @ [DocumentsCleanup INDEX_ID, QueueFindMany INDEX_ID]) @ calls_during w3 (snd p)"
    using c3 lx by (rule calls_during_split)
  have cu: "calls_during w (snd (onIndexUpdate fuel e lu n w)) =
      calls_during w (snd p) @ [WaitForTasks (map taskUid ts)]"
    unfolding u using ts c3 lx by (simp add: calls_during_def)
  have "concat (submissions (calls_during w (snd (onIndexUpdate fuel e lu n w)))) =
      concat (submissions (calls_during w3 (snd p)))"
    unfolding cu cd by (simp add: submissions_append submissions_setup[OF sx(2)])
  moreover have "fst (onIndexUpdate fuel e lu n w) \<noteq> None"
    unfolding u using ts by (simp split: sum.splits)
  ultimately show ?thesis
    using docs by simp
qed

section \<open>The filter of the incremental fetch\<close>

text \<open>
  Claim C1. In every run of \<^verbatim>\<open>onIndexUpdate\<close>, every page read that the run sends to
  the store carries the same \<^verbatim>\<open>OR\<close> filter: none at all when no watermark is given,
  and otherwise the list of the three alternatives created-after-watermark,
  updated-after-watermark and id-among-the-queued-ids, where the queued ids are those of
  the rows of the queue of this index at the start of the run. A run with a client whose
  loop runs at all sends a first page read, at offset 0, with that filter. Given that
  filter, in any state of the store, the batch reader returns the records of exactly the
  articles that satisfy the baseline predicates and, when a watermark is given, one of the
  three alternatives (all articles that satisfy the baseline predicates when none is
  given: a full scan), in table order, from the offset, at most one page of them. When no
  other writer changes the articles and the fuel exceeds the number of such articles, the
  run returns, and the documents it has submitted are the records of exactly those
  articles.
\<close>

theorem onIndexUpdate_fetch_filter:
  fixes e :: "'d env" and w w' :: "'d world" and lastUpdatedAt :: "timestamp option"
  defines "qids \<equiv> map queue_id (filter (\<lambda>r. queue_type r = INDEX_ID)
                                   (db_searchIndexUpdateQueue w))"
  defines "whereOr \<equiv> (case lastUpdatedAt of
                   None \<Rightarrow> None
                 | Some t \<Rightarrow> Some [CreatedAtGt t, UpdatedAtGt t, IdIn qids])"
  defines "selected \<equiv> (\<lambda>a :: 'd article. publishedAt a \<noteq> None \<and> \<not> tosViolation a \<and>
      (case lastUpdatedAt of
         None \<Rightarrow> True
       | Some t \<Rightarrow> t < createdAt a \<or> t < updatedAt a \<or> article_id a \<in> set qids))"
  shows
  "list_all (\<lambda>wo. wo = whereOr)
     (fetch_filters (calls_during w (snd (onIndexUpdate fuel e lastUpdatedAt indexName w)))) \<and>
   (article_where None a \<longleftrightarrow> publishedAt a \<noteq> None \<and> \<not> tosViolation a) \<and>
   (article_where (Some [CreatedAtGt t, UpdatedAtGt t, IdIn ids]) a \<longleftrightarrow>
      publishedAt a \<noteq> None \<and> \<not> tosViolation a \<and>
      (t < createdAt a \<or> t < updatedAt a \<or> article_id a \<in> set ids)) \<and>
   (client e \<longrightarrow>
      ArticleFindMany 0 READ_BATCH_SIZE whereOr
      \<in> set (calls_during w (snd (onIndexUpdate (Suc fuel) e lastUpdatedAt indexName w)))) \<and>
   fst (onFetchItemsToIndex whereOr indexName skip w') =
     map (\<lambda>a. indexReadyRecord (article_select a))
       (take READ_BATCH_SIZE (drop (case skip of None \<Rightarrow> 0 | Some s \<Rightarrow> s)
          (filter selected (db_article w')))) \<and>
   (client e \<and> article_writers e = (\<lambda>k xs. xs) \<and>
    length (filter selected (db_article w)) < fuel \<longrightarrow>
      fst (onIndexUpdate fuel e lastUpdatedAt indexName w) \<noteq> None \<and>
      concat (submissions (calls_during w
                (snd (onIndexUpdate fuel e lastUpdatedAt indexName w)))) =
        map (\<lambda>a. indexReadyRecord (article_select a)) (filter selected (db_article w)))"
proof -
  have sel: "article_where whereOr = selected"
    unfolding whereOr_def selected_def by (rule ext) (rule article_where_pass)
  have 1: "list_all (\<lambda>wo. wo = whereOr)
     (fetch_filters (calls_during w (snd (onIndexUpdate fuel e lastUpdatedAt indexName w))))"
    unfolding whereOr_def qids_def by (rule fetch_filters_of_pass)
  have 2: "article_where None a \<longleftrightarrow> publishedAt a \<noteq> None \<and> \<not> tosViolation a"
    by (simp add: article_where_def)
  have 3: "article_where (Some [CreatedAtGt t, UpdatedAtGt t, IdIn ids]) a \<longleftrightarrow>
      publishedAt a \<noteq> None \<and> \<not> tosViolation a \<and>
      (t < createdAt a \<or> t < updatedAt a \<or> article_id a \<in> set ids)"
    by (simp add: article_where_def)
  have 4: "client e \<longrightarrow>
      ArticleFindMany 0 READ_BATCH_SIZE whereOr
      \<in> set (calls_during w (snd (onIndexUpdate (Suc fuel) e lastUpdatedAt indexName w)))"
    unfolding whereOr_def qids_def by (intro impI) (rule onIndexUpdate_reads_first)
  have 5: "fst (onFetchItemsToIndex whereOr indexName skip w') =
     map (\<lambda>a. indexReadyRecord (article_select a))
       (take READ_BATCH_SIZE (drop (case skip of None \<Rightarrow> 0 | Some s \<Rightarrow> s)
          (filter selected (db_article w'))))"
    by (simp only: fetch_fst sel)
  have 6: "client e \<and> article_writers e = (\<lambda>k xs. xs) \<and>
    length (filter selected (db_article w)) < fuel \<longrightarrow>
      fst (onIndexUpdate fuel e lastUpdatedAt indexName w) \<noteq> None \<and>
      concat (submissions (calls_during w
                (snd (onIndexUpdate fuel e lastUpdatedAt indexName w)))) =
        map (\<lambda>a. indexReadyRecord (article_select a)) (filter selected (db_article w))"
  proof (intro impI)
    assume a: "client e \<and> article_writers e = (\<lambda>k xs. xs) \<and>
      length (filter selected (db_article w)) < fuel"
    then have cl: "client e" and st: "article_writers e = (\<lambda>k xs. xs)"
      and fu: "length (filter (article_where whereOr) (db_article w)) < fuel"
      by (simp_all only: sel)
    from onIndexUpdate_static_submissions[OF cl st fu[unfolded whereOr_def qids_def]]
    show "fst (onIndexUpdate fuel e lastUpdatedAt indexName w) \<noteq> None \<and>
      concat (submissions (calls_during w
                (snd (onIndexUpdate fuel e lastUpdatedAt indexName w)))) =
        map (\<lambda>a. indexReadyRecord (article_select a)) (filter selected (db_article w))"
      unfolding sel[symmetric] whereOr_def qids_def .
  qed
  from 1 2 3 4 5 6 show ?thesis by (intro conjI)
qed

text \<open>
  The theorem at the example store, with the watermark 10: two page reads with the filter
  the theorem gives, and the submitted documents are the records of the first article
  (newer than the watermark) and the third (queued), not of the second (queued, not
  published), the fourth (updated, violating) or the fifth (old, not queued). With no
  watermark the fifth is submitted too.
\<close>

theorem onIndexUpdate_fetch_filter_witness:
  "fetch_filters (calls_during example_world
      (snd (onIndexUpdate 3 example_env (Some 10) ''articles'' example_world))) =
     [Some [CreatedAtGt 10, UpdatedAtGt 10, IdIn [2, 3, 3]],
      Some [CreatedAtGt 10, UpdatedAtGt 10, IdIn [2, 3, 3]]] \<and>
   list_all (\<lambda>wo. wo = Some [CreatedAtGt 10, UpdatedAtGt 10, IdIn [2, 3, 3]])
     (fetch_filters (calls_during example_world
        (snd (onIndexUpdate 3 example_env (Some 10) ''articles'' example_world)))) \<and>
   fetch_filters (calls_during example_world
      (snd (onIndexUpdate 3 example_env None ''articles'' example_world))) = [None, None] \<and>
   map (\<lambda>a. indexReadyRecord (article_select a))
     (filter (\<lambda>a. publishedAt a \<noteq> None \<and> \<not> tosViolation a \<and>
                  (10 < createdAt a \<or> 10 < updatedAt a \<or> article_id a \<in> set [2, 3, 3]))
        (db_article example_world)) =
     concat (submissions (calls_during example_world
       (snd (onIndexUpdate 3 example_env (Some 10) ''articles'' example_world)))) \<and>
   map record_id (concat (submissions (calls_during example_world
     (snd (onIndexUpdate 3 example_env (Some 10) ''articles'' example_world))))) = [1, 3] \<and>
   map record_id (concat (submissions (calls_during example_world
     (snd (onIndexUpdate 3 example_env None ''articles'' example_world))))) = [1, 3, 5]"
proof -
  have q: "map queue_id (filter (\<lambda>r. queue_type r = INDEX_ID)
             (db_searchIndexUpdateQueue example_world)) = [2, 3, 3]"
    by code_simp
  have 1: "fetch_filters (calls_during example_world
      (snd (onIndexUpdate 3 example_env (Some 10) ''articles'' example_world))) =
     [Some [CreatedAtGt 10, UpdatedAtGt 10, IdIn [2, 3, 3]],
      Some [CreatedAtGt 10, UpdatedAtGt 10, IdIn [2, 3, 3]]]"
    by code_simp
  have 2: "fetch_filters (calls_during example_world
      (snd (onIndexUpdate 3 example_env None ''articles'' example_world))) = [None, None]"
    by code_simp
  have 3: "map record_id (concat (submissions (calls_during example_world
     (snd (onIndexUpdate 3 example_env (Some 10) ''articles'' example_world))))) = [1, 3]"
    by code_simp
  have 4: "map record_id (concat (submissions (calls_during example_world
     (snd (onIndexUpdate 3 example_env None ''articles'' example_world))))) = [1, 3, 5]"
    by code_simp
  have cl: "client example_env" by code_simp
  have st: "article_writers example_env = (\<lambda>k xs. xs)"
    by (simp add: example_env_def)
  have fu: "length (filter (\<lambda>a. publishedAt a \<noteq> None \<and> \<not> tosViolation a \<and>
                  (10 < createdAt a \<or> 10 < updatedAt a \<or> article_id a \<in> set [2, 3, 3]))
        (db_article example_world)) < 3"
    by code_simp
  note t = onIndexUpdate_fetch_filter[where lastUpdatedAt = "Some 10" and w = example_world
      and fuel = 3 and e = example_env and indexName = "''articles''"]
  have a: "list_all (\<lambda>wo. wo = Some [CreatedAtGt 10, UpdatedAtGt 10, IdIn [2, 3, 3]])
     (fetch_filters (calls_during example_world
        (snd (onIndexUpdate 3 example_env (Some 10) ''articles'' example_world))))"
    using t[THEN conjunct1] by (simp add: q)
  have b: "map (\<lambda>a. indexReadyRecord (article_select a))
     (filter (\<lambda>a. publishedAt a \<noteq> None \<and> \<not> tosViolation a \<and>
                  (10 < createdAt a \<or> 10 < updatedAt a \<or> article_id a \<in> set [2, 3, 3]))
        (db_article example_world)) =
     concat (submissions (calls_during example_world
       (snd (onIndexUpdate 3 example_env (Some 10) ''articles'' example_world))))"
    using t[THEN conjunct2, THEN conjunct2, THEN conjunct2, THEN conjunct2, THEN conjunct2]
      cl st fu
    by (simp add: q)
  show ?thesis
    using 1 a 2 b 3 4 by (intro conjI)
qed

section \<open>The index given to the cleanup\<close>

text \<open>
  Claim C5. In every run of \<^verbatim>\<open>onIndexUpdate\<close> with a client, whatever index name the
  run writes to (the shadow index of a full rebuild included), the run calls the cleanup
  exactly once, with the logical index id \<^verbatim>\<open>INDEX_ID\<close>; without a client it calls no
  cleanup. The logical index id differs from the name of the shadow index.
\<close>

theorem onIndexUpdate_cleanup_index_id:
  "filter is_cleanup (calls_during w (snd (onIndexUpdate fuel e lastUpdatedAt indexName w))) =
     (if client e then [DocumentsCleanup INDEX_ID] else []) \<and>
   INDEX_ID \<noteq> SWAP_INDEX_ID"
proof (cases "client e")
  case True
  from onIndexUpdate_calls[OF True, of fuel lastUpdatedAt indexName w]
  obtain sx lx wx wo where
    c: "calls (snd (onIndexUpdate fuel e lastUpdatedAt indexName w)) =
          calls w @ sx @ [DocumentsCleanup INDEX_ID, QueueFindMany INDEX_ID] @ lx @ wx"
    and s: "list_all setup_call sx" and l: "list_all (loop_call wo indexName) lx"
    and wt: "list_all is_wait wx"
    by (elim exE conjE)
  have "calls_during w (snd (onIndexUpdate fuel e lastUpdatedAt indexName w)) =
      sx @ [DocumentsCleanup INDEX_ID, QueueFindMany INDEX_ID] @ lx @ wx"
    using c by (rule calls_during_append)
  then show ?thesis
    using True filter_cleanup_setup[OF s] filter_cleanup_wait[OF wt] filter_cleanup_loop[OF l]
      INDEX_ID_not_SWAP
    by simp
next
  case False
  then show ?thesis
    using INDEX_ID_not_SWAP by (simp add: onIndexUpdate_no_client calls_during_def)
qed

text \<open>
  The theorem at a full rebuild (no watermark) into the shadow index: the documents go to
  the shadow index, the cleanup is given the logical index id.
\<close>

theorem onIndexUpdate_cleanup_index_id_witness:
  "filter is_cleanup (calls_during example_world
      (snd (onIndexUpdate 3 example_env None SWAP_INDEX_ID example_world))) =
     [DocumentsCleanup ''articles''] \<and>
   SWAP_INDEX_ID = ''articles_NEW'' \<and>
   UpdateDocuments ''articles_NEW''
     (fst (onFetchItemsToIndex None SWAP_INDEX_ID (Some 0) example_world))
     \<in> set (calls_during example_world
              (snd (onIndexUpdate 3 example_env None SWAP_INDEX_ID example_world)))"
proof -
  have 1: "client example_env" by code_simp
  have 2: "SWAP_INDEX_ID = ''articles_NEW''" by code_simp
  have 3: "UpdateDocuments ''articles_NEW''
     (fst (onFetchItemsToIndex None SWAP_INDEX_ID (Some 0) example_world))
     \<in> set (calls_during example_world
              (snd (onIndexUpdate 3 example_env None SWAP_INDEX_ID example_world)))"
    by code_simp
  show ?thesis
    using onIndexUpdate_cleanup_index_id[where w = example_world and fuel = 3
        and e = example_env and lastUpdatedAt = None and indexName = SWAP_INDEX_ID] 1 2 3
    by (simp add: INDEX_ID_def)
qed

section \<open>No client\<close>

text \<open>
  Claim C10. When the client handle is null, \<^verbatim>\<open>onIndexSetup\<close> and
  \<^verbatim>\<open>onIndexUpdate\<close> return at once: the state is unchanged and no call is made to any
  collaborator (no index is obtained or created, no settings task is issued, no cleanup
  runs, nothing is fetched or submitted).
\<close>

theorem no_client_no_operation:
  "\<not> client e \<Longrightarrow>
     onIndexSetup e indexName w = w \<and>
     onIndexUpdate fuel e lastUpdatedAt indexName w = (Some (Inr ()), w) \<and>
     calls_during w (onIndexSetup e indexName w) = [] \<and>
     calls_during w (snd (onIndexUpdate fuel e lastUpdatedAt indexName w)) = []"
  by (simp add: onIndexSetup_def onIndexUpdate_def calls_during_def)

text \<open>
  The theorem at the example store, with the client handle null.
\<close>

theorem no_client_no_operation_witness:
  "\<not> client no_client_env \<and>
   onIndexSetup no_client_env ''articles'' example_world = example_world \<and>
   onIndexUpdate 3 no_client_env (Some 10) ''articles'' example_world =
     (Some (Inr ()), example_world) \<and>
   calls (snd (onIndexUpdate 3 no_client_env (Some 10) ''articles'' example_world)) = []"
proof -
  have h: "\<not> client no_client_env" by (simp add: no_client_env_def example_env_def)
  have c: "calls example_world = []" by (simp add: example_world_def)
  show ?thesis
    using h c no_client_no_operation[OF h, of "''articles''" example_world 3 "Some 10"]
    by simp
qed

section \<open>The baseline predicates of the batch reader\<close>

text \<open>
  Claim C7. Whatever the \<^verbatim>\<open>OR\<close> filter, the offset and the store, every record that
  \<^verbatim>\<open>onFetchItemsToIndex\<close> returns comes from an article of the store that is published
  (\<^verbatim>\<open>publishedAt\<close> is not null) and does not violate the terms of service; the
  query's filter implies both predicates, so an id in the queued ids does not relax them.
\<close>

theorem onFetchItemsToIndex_baseline:
  "(\<forall>r \<in> set (fst (onFetchItemsToIndex whereOr indexName skip w)).
      \<exists>a \<in> set (db_article w).
        r = indexReadyRecord (article_select a) \<and> publishedAt a \<noteq> None \<and> \<not> tosViolation a) \<and>
   (article_where whereOr a \<longrightarrow> publishedAt a \<noteq> None \<and> \<not> tosViolation a)"
proof (intro conjI ballI)
  fix r
  assume "r \<in> set (fst (onFetchItemsToIndex whereOr indexName skip w))"
  then obtain a where
    a: "a \<in> set (take READ_BATCH_SIZE (drop (case skip of None \<Rightarrow> 0 | Some s \<Rightarrow> s)
          (filter (article_where whereOr) (db_article w))))"
    and r: "r = indexReadyRecord (article_select a)"
    by (auto simp add: fetch_fst)
  from a have "a \<in> set (filter (article_where whereOr) (db_article w))"
    by (meson in_set_dropD in_set_takeD)
  then have "a \<in> set (db_article w)" "publishedAt a \<noteq> None" "\<not> tosViolation a"
    by (simp_all add: article_where_def)
  with r show "\<exists>a \<in> set (db_article w).
        r = indexReadyRecord (article_select a) \<and> publishedAt a \<noteq> None \<and> \<not> tosViolation a"
    by blast
next
  show "article_where whereOr a \<longrightarrow> publishedAt a \<noteq> None \<and> \<not> tosViolation a"
    by (simp add: article_where_def)
qed

text \<open>
  The theorem at the example store: the second article is queued but not published, and it
  is not returned.
\<close>

theorem onFetchItemsToIndex_baseline_witness:
  "map record_id (fst (onFetchItemsToIndex (Some [CreatedAtGt 10, UpdatedAtGt 10, IdIn [2, 3, 3]])
      ''articles'' None example_world)) = [1, 3] \<and>
   list_all (\<lambda>r. list_ex (\<lambda>a. r = indexReadyRecord (article_select a) \<and>
                               publishedAt a \<noteq> None \<and> \<not> tosViolation a)
                    (db_article example_world))
     (fst (onFetchItemsToIndex (Some [CreatedAtGt 10, UpdatedAtGt 10, IdIn [2, 3, 3]])
      ''articles'' None example_world))"
proof -
  have 1: "map record_id (fst (onFetchItemsToIndex (Some [CreatedAtGt 10, UpdatedAtGt 10, IdIn [2, 3, 3]])
      ''articles'' None example_world)) = [1, 3]"
    by code_simp
  show ?thesis
    using 1 onFetchItemsToIndex_baseline[where whereOr = "Some [CreatedAtGt 10, UpdatedAtGt 10, IdIn [2, 3, 3]]"
        and indexName = "''articles''" and skip = None and w = example_world, THEN conjunct1]
    by (simp add: list_all_iff list_ex_iff)
qed

section \<open>The settings updates of the index setup\<close>

text \<open>
  Claim C3 says that \<^verbatim>\<open>onIndexSetup\<close> issues no settings update for any of the three
  attribute categories when the current settings already are the desired lists. The code
  does so for the filterable attributes only. At an index whose searchable, sortable and
  filterable attributes already are the desired lists (in sorted form), it issues no
  filterable update, and it still issues the update of the searchable and the update of
  the sortable attributes: the function reads the settings first, and then makes those two
  calls without the comparison that guards the filterable update.
\<close>

theorem onIndexSetup_settled_index_updates:
  "filterableAttributes (getSettings settled_env ''articles'') = [''tags''] \<and>
   sortableAttributes (getSettings settled_env ''articles'') =
     [''createdAt'', ''metrics.commentCount'', ''metrics.favoriteCount'', ''metrics.viewCount''] \<and>
   sort [''createdAt'', ''metrics.commentCount'', ''metrics.favoriteCount'', ''metrics.viewCount''] =
     [''createdAt'', ''metrics.commentCount'', ''metrics.favoriteCount'', ''metrics.viewCount''] \<and>
   searchableAttributes (getSettings settled_env ''articles'') =
     sort [''title'', ''content'', ''tags'', ''user.username''] \<and>
   filter is_settings_update
     (calls_during example_world (onIndexSetup settled_env ''articles'' example_world)) =
     [UpdateSearchableAttributes ''articles'' [''title'', ''content'', ''tags'', ''user.username''],
      UpdateSortableAttributes ''articles''
        [''createdAt'', ''metrics.commentCount'', ''metrics.favoriteCount'', ''metrics.viewCount'']]"
  by code_simp

text \<open>
  The same holds at every index that is obtained, whatever its settings: the two updates
  are among the calls, and the filterable update is among them exactly when the current
  filterable attributes differ from the sorted desired list.
\<close>

lemma onIndexSetup_issued_updates:
  "client e \<Longrightarrow> getOrCreateIndex e indexName \<Longrightarrow>
     filter is_settings_update (calls_during w (onIndexSetup e indexName w)) =
       [UpdateSearchableAttributes indexName [''title'', ''content'', ''tags'', ''user.username''],
        UpdateSortableAttributes indexName
          [''createdAt'', ''metrics.commentCount'', ''metrics.favoriteCount'',
           ''metrics.viewCount'']] @
       (if filterableAttributes (getSettings e indexName) = sort [''tags''] then []
        else [UpdateFilterableAttributes indexName (sort [''tags''])])"
  by (simp add: calls_during_def onIndexSetup_calls)

section \<open>The record transformation\<close>

text \<open>
  Claim C4, as stated, fails: for an article with no all-time metrics row the metrics
  object of the record is the empty object, not an object of zero-valued fields.
\<close>

theorem indexReadyRecord_no_all_time_counterexample:
  "map record_id (fst (onFetchItemsToIndex (Some [IdIn [3]]) ''articles'' None example_world)) = [3] \<and>
   map record_metrics (fst (onFetchItemsToIndex (Some [IdIn [3]]) ''articles'' None example_world)) = [[]] \<and>
   [] \<noteq> zero_valued_metrics"
  by code_simp

text \<open>
  Claim C4, amended. For every article that the batch reader returns, the record's metrics
  object holds the nine fields of the article's first all-time metrics row, and is the
  empty object (no field) when the article has no all-time row; the record's tags are the
  names of the tags of the article's tag rows, in order.
\<close>

theorem onFetchItemsToIndex_records:
  "fst (onFetchItemsToIndex whereOr indexName skip w) =
     map (\<lambda>a. \<lparr>record_id = article_id a, record_detail = detail a,
                record_metrics = (case find (\<lambda>m. timeframe m = AllTime) (metrics a) of
                                    None \<Rightarrow> [] | Some m \<Rightarrow> metric_fields m),
                record_tags = map (\<lambda>articleTag. name (tag articleTag)) (tags a)\<rparr>)
       (take READ_BATCH_SIZE (drop (case skip of None \<Rightarrow> 0 | Some s \<Rightarrow> s)
          (filter (article_where whereOr) (db_article w))))"
  by (simp add: fetch_fst indexReadyRecord_select)

text \<open>
  The theorem at the first example article, which has a row for the last day and an
  all-time row: the metrics are those of the all-time row, the tags are the two names.
\<close>

theorem onFetchItemsToIndex_records_witness:
  "fst (onFetchItemsToIndex (Some [IdIn [1]]) ''articles'' None example_world) =
     [\<lparr>record_id = 1, record_detail = (),
       record_metrics =
         [(''commentCount'', 7), (''cryCount'', 0), (''dislikeCount'', 0), (''favoriteCount'', 8),
          (''heartCount'', 0), (''hideCount'', 0), (''laughCount'', 0), (''viewCount'', 9),
          (''likeCount'', 0)],
       record_tags = [''news'', ''guide'']\<rparr>]"
proof -
  have "map (\<lambda>a. \<lparr>record_id = article_id a, record_detail = detail a,
                record_metrics = (case find (\<lambda>m. timeframe m = AllTime) (metrics a) of
                                    None \<Rightarrow> [] | Some m \<Rightarrow> metric_fields m),
                record_tags = map (\<lambda>articleTag. name (tag articleTag)) (tags a)\<rparr>)
       (take READ_BATCH_SIZE (drop (case None of None \<Rightarrow> 0 | Some s \<Rightarrow> s)
          (filter (article_where (Some [IdIn [1]])) (db_article example_world)))) =
     [\<lparr>record_id = 1, record_detail = (),
       record_metrics =
         [(''commentCount'', 7), (''cryCount'', 0), (''dislikeCount'', 0), (''favoriteCount'', 8),
          (''heartCount'', 0), (''hideCount'', 0), (''laughCount'', 0), (''viewCount'', 9),
          (''likeCount'', 0)],
       record_tags = [''news'', ''guide'']\<rparr>]"
    by code_simp
  then show ?thesis
    by (simp only: onFetchItemsToIndex_records)
qed

section \<open>The sub-batches of the document writer\<close>

text \<open>
  Claim C8. The document writer, called with \<^verbatim>\<open>MEILISEARCH_DOCUMENT_BATCH_SIZE\<close> as
  \<^verbatim>\<open>onIndexUpdate\<close> calls it, submits the documents in consecutive sub-batches, in
  order: the submitted sub-batches concatenated are the input, every sub-batch has 25
  documents except a last one that holds the remainder, and an input of 57 documents is
  submitted in exactly three calls, of 25, 25 and 7 documents.
\<close>

theorem updateDocumentsInBatches_sub_batches:
  "concat (submissions (calls_during w
      (snd (updateDocumentsInBatches indexName documents MEILISEARCH_DOCUMENT_BATCH_SIZE w)))) =
     documents \<and>
   map length (submissions (calls_during w
      (snd (updateDocumentsInBatches indexName documents MEILISEARCH_DOCUMENT_BATCH_SIZE w)))) =
     replicate (length documents div 25) 25 @
     (if length documents mod 25 = 0 then [] else [length documents mod 25]) \<and>
   (length documents = 57 \<longrightarrow>
      map length (submissions (calls_during w
        (snd (updateDocumentsInBatches indexName documents MEILISEARCH_DOCUMENT_BATCH_SIZE w)))) =
      [25, 25, 7])"
proof -
  have p: "0 < MEILISEARCH_DOCUMENT_BATCH_SIZE"
    by (simp add: MEILISEARCH_DOCUMENT_BATCH_SIZE_def)
  have l: "map length (batches MEILISEARCH_DOCUMENT_BATCH_SIZE documents) =
     replicate (length documents div 25) 25 @
     (if length documents mod 25 = 0 then [] else [length documents mod 25])"
    using batches_lengths[OF p, of documents] by (simp add: MEILISEARCH_DOCUMENT_BATCH_SIZE_def)
  have "length documents = 57 \<longrightarrow>
     replicate (length documents div 25) 25 @
     (if length documents mod 25 = 0 then [] else [length documents mod 25]) = [25, 25, 7::nat]"
  proof
    assume h: "length documents = 57"
    have r: "replicate ((57::nat) div 25) (25::nat) = [25, 25]" by code_simp
    have m: "(57::nat) mod 25 = 7" by simp
    show "replicate (length documents div 25) 25 @
       (if length documents mod 25 = 0 then [] else [length documents mod 25]) = [25, 25, 7::nat]"
      unfolding h r m by simp
  qed
  then show ?thesis
    using l batches_concat[OF p, of documents]
    by (simp only: updateDocumentsInBatches_submissions)
qed

text \<open>
  The theorem at a page of 57 records read from a store of 57 published articles; the
  whole pass over that store makes the same three submissions.
\<close>

theorem updateDocumentsInBatches_sub_batches_witness:
  "length (fst (onFetchItemsToIndex None ''articles'' (Some 0) example_world_57)) = 57 \<and>
   map length (submissions (calls_during
      (snd (onFetchItemsToIndex None ''articles'' (Some 0) example_world_57))
      (snd (updateDocumentsInBatches ''articles''
              (fst (onFetchItemsToIndex None ''articles'' (Some 0) example_world_57))
              MEILISEARCH_DOCUMENT_BATCH_SIZE
              (snd (onFetchItemsToIndex None ''articles'' (Some 0) example_world_57)))))) =
     [25, 25, 7] \<and>
   map length (submissions (calls_during example_world_57
      (snd (onIndexUpdate 3 example_env None ''articles'' example_world_57)))) = [25, 25, 7]"
proof -
  have 1: "length (fst (onFetchItemsToIndex None ''articles'' (Some 0) example_world_57)) = 57"
    by code_simp
  have 2: "map length (submissions (calls_during example_world_57
      (snd (onIndexUpdate 3 example_env None ''articles'' example_world_57)))) = [25, 25, 7]"
    by code_simp
  note t = updateDocumentsInBatches_sub_batches[where
        documents = "fst (onFetchItemsToIndex None ''articles'' (Some 0) example_world_57)"
        and w = "snd (onFetchItemsToIndex None ''articles'' (Some 0) example_world_57)"
        and indexName = "''articles''", THEN conjunct2, THEN conjunct2, THEN mp, OF 1]
  show ?thesis
    using 1 2 t by (intro conjI)
qed

section \<open>The exit of the paging loop\<close>

text \<open>
  Claim C9. The batch reader returns the empty sequence exactly when no article that
  satisfies the filter lies at or beyond the offset. An iteration of the paging loop whose
  page is empty returns at once, with the tasks collected so far and without a submission;
  an iteration whose page is not empty submits the page and goes on with the offset
  advanced by the length of the page. When the loop returns, its last call is a page read
  that found no matching article at or beyond its offset. When no other writer changes the
  articles, the loop returns once the fuel exceeds the number of matching articles beyond
  the offset, and by then it has submitted exactly the records of those articles, in order.
\<close>

theorem paging_loop_exit_on_empty_page:
  fixes e :: "'d env" and lastUpdatedAt queuedItems
  defines "whereOr \<equiv> (case lastUpdatedAt of None \<Rightarrow> None
     | Some t \<Rightarrow> Some [CreatedAtGt t, UpdatedAtGt t, IdIn (map queue_id queuedItems)])"
  shows
  "(fst (onFetchItemsToIndex wo indexName skip w0) = [] \<longleftrightarrow>
      length (filter (article_where wo) (db_article w0)) \<le> (case skip of None \<Rightarrow> 0 | Some s \<Rightarrow> s)) \<and>
   (fst (onFetchItemsToIndex whereOr indexName (Some offset) (suspend e w)) = [] \<longrightarrow>
      paging_loop (Suc fuel) e lastUpdatedAt indexName queuedItems offset articlesTasks w =
        (Some articlesTasks,
         snd (onFetchItemsToIndex whereOr indexName (Some offset) (suspend e w)))) \<and>
   (fst (onFetchItemsToIndex whereOr indexName (Some offset) (suspend e w)) \<noteq> [] \<longrightarrow>
      paging_loop (Suc fuel) e lastUpdatedAt indexName queuedItems offset articlesTasks w =
        paging_loop fuel e lastUpdatedAt indexName queuedItems
          (offset + length (fst (onFetchItemsToIndex whereOr indexName (Some offset) (suspend e w))))
          (articlesTasks @
             fst (updateDocumentsInBatches indexName
                    (fst (onFetchItemsToIndex whereOr indexName (Some offset) (suspend e w)))
                    MEILISEARCH_DOCUMENT_BATCH_SIZE
                    (snd (onFetchItemsToIndex whereOr indexName (Some offset) (suspend e w)))))
          (snd (updateDocumentsInBatches indexName
                  (fst (onFetchItemsToIndex whereOr indexName (Some offset) (suspend e w)))
                  MEILISEARCH_DOCUMENT_BATCH_SIZE
                  (snd (onFetchItemsToIndex whereOr indexName (Some offset) (suspend e w)))))) \<and>
   (fst (paging_loop fuel e lastUpdatedAt indexName queuedItems offset articlesTasks w) = Some tasks \<longrightarrow>
      (\<exists>sk. last (calls (snd (paging_loop fuel e lastUpdatedAt indexName queuedItems offset
                                 articlesTasks w))) =
               ArticleFindMany sk READ_BATCH_SIZE whereOr \<and>
            length (filter (article_where whereOr)
                      (db_article (snd (paging_loop fuel e lastUpdatedAt indexName queuedItems
                                          offset articlesTasks w)))) \<le> sk)) \<and>
   (article_writers e = (\<lambda>k xs. xs) \<and>
    length (filter (article_where whereOr) (db_article w)) - offset < fuel \<longrightarrow>
      (\<exists>ts. fst (paging_loop fuel e lastUpdatedAt indexName queuedItems offset articlesTasks w) =
              Some ts) \<and>
      concat (submissions (calls_during w
                (snd (paging_loop fuel e lastUpdatedAt indexName queuedItems offset
                        articlesTasks w)))) =
        map (\<lambda>a. indexReadyRecord (article_select a))
          (drop offset (filter (article_where whereOr) (db_article w))))"
proof (intro conjI impI)
  show "fst (onFetchItemsToIndex wo indexName skip w0) = [] \<longleftrightarrow>
      length (filter (article_where wo) (db_article w0)) \<le> (case skip of None \<Rightarrow> 0 | Some s \<Rightarrow> s)"
    by (rule fetch_empty_iff)
next
  assume "fst (onFetchItemsToIndex whereOr indexName (Some offset) (suspend e w)) = []"
  then show "paging_loop (Suc fuel) e lastUpdatedAt indexName queuedItems offset articlesTasks w =
        (Some articlesTasks,
         snd (onFetchItemsToIndex whereOr indexName (Some offset) (suspend e w)))"
    unfolding whereOr_def by (simp only: paging_loop_Suc Let_def if_P if_True refl)
next
  assume "fst (onFetchItemsToIndex whereOr indexName (Some offset) (suspend e w)) \<noteq> []"
  then show "paging_loop (Suc fuel) e lastUpdatedAt indexName queuedItems offset articlesTasks w =
        paging_loop fuel e lastUpdatedAt indexName queuedItems
          (offset + length (fst (onFetchItemsToIndex whereOr indexName (Some offset) (suspend e w))))
          (articlesTasks @
             fst (updateDocumentsInBatches indexName
                    (fst (onFetchItemsToIndex whereOr indexName (Some offset) (suspend e w)))
                    MEILISEARCH_DOCUMENT_BATCH_SIZE
                    (snd (onFetchItemsToIndex whereOr indexName (Some offset) (suspend e w)))))
          (snd (updateDocumentsInBatches indexName
                  (fst (onFetchItemsToIndex whereOr indexName (Some offset) (suspend e w)))
                  MEILISEARCH_DOCUMENT_BATCH_SIZE
                  (snd (onFetchItemsToIndex whereOr indexName (Some offset) (suspend e w)))))"
    unfolding whereOr_def by (simp only: paging_loop_Suc Let_def if_not_P if_False)
next
  assume "fst (paging_loop fuel e lastUpdatedAt indexName queuedItems offset articlesTasks w) = Some tasks"
  from paging_loop_returns_on_empty[OF this]
  show "\<exists>sk. last (calls (snd (paging_loop fuel e lastUpdatedAt indexName queuedItems offset
                                 articlesTasks w))) =
               ArticleFindMany sk READ_BATCH_SIZE whereOr \<and>
            length (filter (article_where whereOr)
                      (db_article (snd (paging_loop fuel e lastUpdatedAt indexName queuedItems
                                          offset articlesTasks w)))) \<le> sk"
    unfolding whereOr_def by blast
next
  assume a: "article_writers e = (\<lambda>k xs. xs) \<and>
    length (filter (article_where whereOr) (db_article w)) - offset < fuel"
  from a have st: "article_writers e = (\<lambda>k xs. xs)" by (rule conjunct1)
  from a have "length (filter (article_where whereOr) (db_article w)) - offset < fuel"
    by (rule conjunct2)
  from paging_loop_static[OF st this[unfolded whereOr_def]]
  show "\<exists>ts. fst (paging_loop fuel e lastUpdatedAt indexName queuedItems offset articlesTasks w) =
              Some ts"
    by (rule conjunct1)
next
  assume a: "article_writers e = (\<lambda>k xs. xs) \<and>
    length (filter (article_where whereOr) (db_article w)) - offset < fuel"
  from a have st: "article_writers e = (\<lambda>k xs. xs)" by (rule conjunct1)
  from a have "length (filter (article_where whereOr) (db_article w)) - offset < fuel"
    by (rule conjunct2)
  from paging_loop_static[OF st this[unfolded whereOr_def]]
  show "concat (submissions (calls_during w
                (snd (paging_loop fuel e lastUpdatedAt indexName queuedItems offset
                        articlesTasks w)))) =
        map (\<lambda>a. indexReadyRecord (article_select a))
          (drop offset (filter (article_where whereOr) (db_article w)))"
    unfolding whereOr_def by (rule conjunct2[THEN conjunct1])
qed

text \<open>
  The theorem at the example store, no other writer: the loop returns, having submitted
  the records of the three matching articles after two page reads.
\<close>

theorem paging_loop_exit_on_empty_page_witness:
  "article_writers example_env = (\<lambda>k xs. xs) \<and>
   fst (paging_loop 4 example_env (Some 10) ''articles'' example_queue 0 [] example_world) =
     Some [\<lparr>taskUid = 0\<rparr>] \<and>
   concat (submissions (calls_during example_world
      (snd (paging_loop 4 example_env (Some 10) ''articles'' example_queue 0 [] example_world)))) =
     map (\<lambda>a. indexReadyRecord (article_select a))
       (drop 0 (filter (article_where
                  (Some [CreatedAtGt 10, UpdatedAtGt 10, IdIn (map queue_id example_queue)]))
          (db_article example_world))) \<and>
   map record_id (concat (submissions (calls_during example_world
      (snd (paging_loop 4 example_env (Some 10) ''articles'' example_queue 0 [] example_world))))) =
     [1, 3, 5] \<and>
   fetch_filters (calls_during example_world
      (snd (paging_loop 4 example_env (Some 10) ''articles'' example_queue 0 [] example_world))) =
     [Some [CreatedAtGt 10, UpdatedAtGt 10, IdIn [2, 3, 3, 5]],
      Some [CreatedAtGt 10, UpdatedAtGt 10, IdIn [2, 3, 3, 5]]]"
proof -
  have st: "article_writers example_env = (\<lambda>k xs. xs)"
    by (simp add: example_env_def)
  have len: "length (filter (article_where
                  (case Some 10 of None \<Rightarrow> None
                   | Some t \<Rightarrow> Some [CreatedAtGt t, UpdatedAtGt t, IdIn (map queue_id example_queue)]))
          (db_article example_world)) - 0 < 4"
    by code_simp
  note t = paging_loop_exit_on_empty_page[where e = example_env and lastUpdatedAt = "Some 10"
      and queuedItems = example_queue and w = example_world and offset = 0 and fuel = 4
      and indexName = "''articles''" and articlesTasks = "[]",
      THEN conjunct2, THEN conjunct2, THEN conjunct2, THEN conjunct2, THEN mp,
      OF conjI, OF st len]
  have 1: "fst (paging_loop 4 example_env (Some 10) ''articles'' example_queue 0 [] example_world) =
     Some [\<lparr>taskUid = 0\<rparr>]"
    by code_simp
  have 2: "map record_id (concat (submissions (calls_during example_world
      (snd (paging_loop 4 example_env (Some 10) ''articles'' example_queue 0 [] example_world))))) =
     [1, 3, 5]"
    by code_simp
  have 3: "fetch_filters (calls_during example_world
      (snd (paging_loop 4 example_env (Some 10) ''articles'' example_queue 0 [] example_world))) =
     [Some [CreatedAtGt 10, UpdatedAtGt 10, IdIn [2, 3, 3, 5]],
      Some [CreatedAtGt 10, UpdatedAtGt 10, IdIn [2, 3, 3, 5]]]"
    by code_simp
  show ?thesis
    using st 1 2 3 t by simp
qed

section \<open>The snapshot of the dirty queue\<close>

text \<open>
  Claim C6, as stated, fails in one word: the ids folded into the filter are not
  deduplicated. With the third article queued twice, the filter of every page read lists
  its id twice.
\<close>

theorem queue_snapshot_not_deduplicated_counterexample:
  "map queue_id (filter (\<lambda>r. queue_type r = INDEX_ID) (db_searchIndexUpdateQueue example_world)) =
     [2, 3, 3] \<and>
   remdups [2, 3, 3 :: int] = [2, 3] \<and>
   fetch_filters (calls_during example_world
      (snd (onIndexUpdate 3 example_env (Some 10) ''articles'' example_world))) =
     [Some [CreatedAtGt 10, UpdatedAtGt 10, IdIn [2, 3, 3]],
      Some [CreatedAtGt 10, UpdatedAtGt 10, IdIn [2, 3, 3]]] \<and>
   IdIn [2, 3, 3] \<noteq> IdIn (remdups [2, 3, 3])"
  by code_simp

text \<open>
  Claim C6, amended. A run of \<^verbatim>\<open>onIndexUpdate\<close> with a client reads the dirty queue
  exactly once, before every page read. Every page read of the run carries the ids of the
  rows read then, in table order and with duplicates kept, whatever the other writers do to
  the queue while the loop runs: the result of the run and its calls do not depend on what
  is enqueued during the run. A duplicate id does not change which articles the filter
  selects.
\<close>

theorem onIndexUpdate_queue_snapshot:
  "client e \<Longrightarrow>
     (\<exists>before after.
        calls_during w (snd (onIndexUpdate fuel e lastUpdatedAt indexName w)) =
          before @ QueueFindMany INDEX_ID # after \<and>
        \<not> list_ex is_queue_read before \<and> \<not> list_ex is_fetch before \<and>
        \<not> list_ex is_queue_read after) \<and>
     list_all
       (\<lambda>wo. wo = (case lastUpdatedAt of
                     None \<Rightarrow> None
                   | Some t \<Rightarrow>
                       Some [CreatedAtGt t, UpdatedAtGt t,
                             IdIn (map queue_id (filter (\<lambda>r. queue_type r = INDEX_ID)
                                     (db_searchIndexUpdateQueue w)))]))
       (fetch_filters (calls_during w
          (snd (onIndexUpdate fuel (e\<lparr>queue_writers := qw\<rparr>) lastUpdatedAt indexName w)))) \<and>
     fst (onIndexUpdate fuel (e\<lparr>queue_writers := qw\<rparr>) lastUpdatedAt indexName w) =
       fst (onIndexUpdate fuel e lastUpdatedAt indexName w) \<and>
     calls (snd (onIndexUpdate fuel (e\<lparr>queue_writers := qw\<rparr>) lastUpdatedAt indexName w)) =
       calls (snd (onIndexUpdate fuel e lastUpdatedAt indexName w)) \<and>
     (where_holds (IdIn ids) a \<longleftrightarrow> where_holds (IdIn (remdups ids)) a)"
proof (intro conjI)
  assume cl: "client e"
  from onIndexUpdate_calls[OF cl, of fuel lastUpdatedAt indexName w]
  obtain sx lx wx wo where
    c: "calls (snd (onIndexUpdate fuel e lastUpdatedAt indexName w)) =
          calls w @ sx @ [DocumentsCleanup INDEX_ID, QueueFindMany INDEX_ID] @ lx @ wx"
    and s: "list_all setup_call sx" and l: "list_all (loop_call wo indexName) lx"
    and wt: "list_all is_wait wx"
    by (elim exE conjE)
  have "calls_during w (snd (onIndexUpdate fuel e lastUpdatedAt indexName w)) =
      sx @ [DocumentsCleanup INDEX_ID, QueueFindMany INDEX_ID] @ lx @ wx"
    using c by (rule calls_during_append)
  then have d: "calls_during w (snd (onIndexUpdate fuel e lastUpdatedAt indexName w)) =
      (sx @ [DocumentsCleanup INDEX_ID]) @ QueueFindMany INDEX_ID # (lx @ wx)"
    by simp
  have b: "\<not> list_ex is_queue_read (sx @ [DocumentsCleanup INDEX_ID]) \<and>
           \<not> list_ex is_fetch (sx @ [DocumentsCleanup INDEX_ID])"
    using setup_call_others[OF s] by simp
  have a: "\<not> list_ex is_queue_read (lx @ wx)"
    using loop_call_others[OF l] wait_others[OF wt] by simp
  show "\<exists>before after.
        calls_during w (snd (onIndexUpdate fuel e lastUpdatedAt indexName w)) =
          before @ QueueFindMany INDEX_ID # after \<and>
        \<not> list_ex is_queue_read before \<and> \<not> list_ex is_fetch before \<and>
        \<not> list_ex is_queue_read after"
    using d a b by blast
next
  show "list_all
       (\<lambda>wo. wo = (case lastUpdatedAt of
                     None \<Rightarrow> None
                   | Some t \<Rightarrow>
                       Some [CreatedAtGt t, UpdatedAtGt t,
                             IdIn (map queue_id (filter (\<lambda>r. queue_type r = INDEX_ID)
                                     (db_searchIndexUpdateQueue w)))]))
       (fetch_filters (calls_during w
          (snd (onIndexUpdate fuel (e\<lparr>queue_writers := qw\<rparr>) lastUpdatedAt indexName w))))"
    by (rule fetch_filters_of_pass)
next
  show "fst (onIndexUpdate fuel (e\<lparr>queue_writers := qw\<rparr>) lastUpdatedAt indexName w) =
       fst (onIndexUpdate fuel e lastUpdatedAt indexName w)"
    using onIndexUpdate_queue_writers by (rule conjunct1)
next
  show "calls (snd (onIndexUpdate fuel (e\<lparr>queue_writers := qw\<rparr>) lastUpdatedAt indexName w)) =
       calls (snd (onIndexUpdate fuel e lastUpdatedAt indexName w))"
    using onIndexUpdate_queue_writers[where fuel = fuel and e = e and qw = qw
        and lu = lastUpdatedAt and n = indexName and w = w]
    by (simp add: same_but_queue_def)
next
  show "where_holds (IdIn ids) a \<longleftrightarrow> where_holds (IdIn (remdups ids)) a"
    by simp
qed

text \<open>
  The theorem at the example store, with a writer that enqueues the fifth article at every
  suspension point: the filters and the calls are those of the run without that writer, and
  the fifth article is not submitted.
\<close>

theorem onIndexUpdate_queue_snapshot_witness:
  "client example_env \<and>
   fetch_filters (calls_during example_world
      (snd (onIndexUpdate 3 (example_env\<lparr>queue_writers := enqueue_article_5\<rparr>) (Some 10)
              ''articles'' example_world))) =
     [Some [CreatedAtGt 10, UpdatedAtGt 10, IdIn [2, 3, 3]],
      Some [CreatedAtGt 10, UpdatedAtGt 10, IdIn [2, 3, 3]]] \<and>
   map queue_id (db_searchIndexUpdateQueue
      (snd (onIndexUpdate 3 (example_env\<lparr>queue_writers := enqueue_article_5\<rparr>) (Some 10)
              ''articles'' example_world))) = [2, 3, 3, 5, 5, 5] \<and>
   calls (snd (onIndexUpdate 3 (example_env\<lparr>queue_writers := enqueue_article_5\<rparr>) (Some 10)
                 ''articles'' example_world)) =
     calls (snd (onIndexUpdate 3 example_env (Some 10) ''articles'' example_world)) \<and>
   map (map record_id) (submissions (calls (snd (onIndexUpdate 3 example_env (Some 10)
      ''articles'' example_world)))) = [[1, 3]]"
proof -
  have 1: "client example_env" by code_simp
  have 2: "fetch_filters (calls_during example_world
      (snd (onIndexUpdate 3 (example_env\<lparr>queue_writers := enqueue_article_5\<rparr>) (Some 10)
              ''articles'' example_world))) =
     [Some [CreatedAtGt 10, UpdatedAtGt 10, IdIn [2, 3, 3]],
      Some [CreatedAtGt 10, UpdatedAtGt 10, IdIn [2, 3, 3]]]"
    by code_simp
  have 3: "map queue_id (db_searchIndexUpdateQueue
      (snd (onIndexUpdate 3 (example_env\<lparr>queue_writers := enqueue_article_5\<rparr>) (Some 10)
              ''articles'' example_world))) = [2, 3, 3, 5, 5, 5]"
    by code_simp
  have 4: "map (map record_id) (submissions (calls (snd (onIndexUpdate 3 example_env (Some 10)
      ''articles'' example_world)))) = [[1, 3]]"
    by code_simp
  note t = onIndexUpdate_queue_snapshot[OF 1, where w = example_world and fuel = 3
      and lastUpdatedAt = "Some 10" and indexName = "''articles''" and qw = enqueue_article_5,
      THEN conjunct2, THEN conjunct2, THEN conjunct2, THEN conjunct1]
  show ?thesis
    using 1 2 3 4 t by (intro conjI)
qed

section \<open>A pass whose task waiter times out\<close>

text \<open>
  Claim C2. When the paging loop of an incremental pass has returned its tasks and the task
  waiter times out on them, \<^verbatim>\<open>onIndexUpdate\<close> throws the timeout error, the pass of
  the update processor fails with it, the stored watermark after the run is the watermark
  before the run, the run makes no call that sets the watermark or deletes rows of the
  dirty queue, and the dirty queue is what \<^verbatim>\<open>onIndexUpdate\<close> left (the table before
  the run, when no other writer changes it).
\<close>

theorem timed_out_pass_keeps_watermark:
  assumes cl: "client e"
    and loop: "fst (paging_loop fuel e (lastUpdate w) INDEX_ID
                 (filter (\<lambda>r. queue_type r = INDEX_ID) (db_searchIndexUpdateQueue w)) 0 []
                 (record_call (QueueFindMany INDEX_ID)
                    (onSearchIndexDocumentsCleanup INDEX_ID (onIndexSetup e INDEX_ID w)))) =
               Some articlesTasks"
    and timeout: "waitForTasksWithRetries e (map taskUid articlesTasks) = Inl TimeoutError"
  shows "fst (onIndexUpdate fuel e (lastUpdate w) INDEX_ID w) = Some (Inl TimeoutError) \<and>
         fst (processor_update fuel e now w) = Some (Inl TimeoutError) \<and>
         lastUpdate (snd (processor_update fuel e now w)) = lastUpdate w \<and>
         \<not> list_ex is_commit (calls_during w (snd (processor_update fuel e now w))) \<and>
         db_searchIndexUpdateQueue (snd (processor_update fuel e now w)) =
           db_searchIndexUpdateQueue (snd (onIndexUpdate fuel e (lastUpdate w) INDEX_ID w)) \<and>
         (queue_writers e = (\<lambda>k xs. xs) \<longrightarrow>
            db_searchIndexUpdateQueue (snd (processor_update fuel e now w)) =
              db_searchIndexUpdateQueue w)"
proof -
  define w3 where "w3 = record_call (QueueFindMany INDEX_ID)
                    (onSearchIndexDocumentsCleanup INDEX_ID (onIndexSetup e INDEX_ID w))"
  define p where "p = paging_loop fuel e (lastUpdate w) INDEX_ID
                 (filter (\<lambda>r. queue_type r = INDEX_ID) (db_searchIndexUpdateQueue w)) 0 [] w3"
  define u where "u = onIndexUpdate fuel e (lastUpdate w) INDEX_ID w"
  have fp: "fst p = Some articlesTasks"
    using loop unfolding p_def w3_def .
  have u: "u = (Some (Inl TimeoutError),
                record_call (WaitForTasks (map taskUid articlesTasks)) (snd p))"
    unfolding u_def p_def w3_def using cl fp[unfolded p_def w3_def] timeout
    by (simp only: onIndexUpdate_unfold Let_def) simp
  have pu: "processor_update fuel e now w = u"
    unfolding processor_update_def u_def[symmetric] by (simp add: u Let_def)
  have l3: "lastUpdate w3 = lastUpdate w"
    unfolding w3_def by (simp add: onIndexSetup_fields)
  have q3: "db_searchIndexUpdateQueue w3 = db_searchIndexUpdateQueue w"
    unfolding w3_def by (simp add: onIndexSetup_fields)
  have lu: "lastUpdate (snd u) = lastUpdate w"
    unfolding u p_def by (simp add: paging_loop_lastUpdate l3)
  from onIndexUpdate_calls[OF cl, of fuel "lastUpdate w" INDEX_ID w]
  obtain sx lx wx wo where
    c: "calls (snd u) =
          calls w @ sx @ [DocumentsCleanup INDEX_ID, QueueFindMany INDEX_ID] @ lx @ wx"
    and s: "list_all setup_call sx" and l: "list_all (loop_call wo INDEX_ID) lx"
    and wt: "list_all is_wait wx"
    unfolding u_def by (elim exE conjE)
  have "calls_during w (snd u) =
      sx @ [DocumentsCleanup INDEX_ID, QueueFindMany INDEX_ID] @ lx @ wx"
    using c by (rule calls_during_append)
  then have nc: "\<not> list_ex is_commit (calls_during w (snd u))"
    using setup_call_others[OF s] loop_call_others[OF l] wait_others[OF wt] by simp
  have qs: "queue_writers e = (\<lambda>k xs. xs) \<longrightarrow>
      db_searchIndexUpdateQueue (snd u) = db_searchIndexUpdateQueue w"
    unfolding u p_def by (simp add: paging_loop_queue q3)
  show ?thesis
    unfolding pu u_def[symmetric] using lu nc qs by (simp add: u)
qed

text \<open>
  The theorem at the example store with tasks that stay pending: the pass fails and the
  watermark stays 10; with tasks that succeed the pass commits the watermark 99.
\<close>

theorem timed_out_pass_keeps_watermark_witness:
  "client pending_env \<and>
   waitForTasksWithRetries pending_env [3] = Inl TimeoutError \<and>
   fst (processor_update 3 pending_env 99 example_world) = Some (Inl TimeoutError) \<and>
   lastUpdate (snd (processor_update 3 pending_env 99 example_world)) = Some 10 \<and>
   lastUpdate example_world = Some 10 \<and>
   db_searchIndexUpdateQueue (snd (processor_update 3 pending_env 99 example_world)) =
     example_queue \<and>
   fst (processor_update 3 example_env 99 example_world) = Some (Inr ()) \<and>
   lastUpdate (snd (processor_update 3 example_env 99 example_world)) = Some 99"
proof -
  have 1: "client pending_env" by code_simp
  have 2: "fst (paging_loop 3 pending_env (lastUpdate example_world) INDEX_ID
                 (filter (\<lambda>r. queue_type r = INDEX_ID) (db_searchIndexUpdateQueue example_world)) 0 []
                 (record_call (QueueFindMany INDEX_ID)
                    (onSearchIndexDocumentsCleanup INDEX_ID
                       (onIndexSetup pending_env INDEX_ID example_world)))) =
               Some [\<lparr>taskUid = 3\<rparr>]"
    by code_simp
  have 3: "waitForTasksWithRetries pending_env (map taskUid [\<lparr>taskUid = 3\<rparr>]) = Inl TimeoutError"
    by code_simp
  have 4: "lastUpdate example_world = Some 10" by code_simp
  have 5: "db_searchIndexUpdateQueue example_world = example_queue" by code_simp
  have 6: "queue_writers pending_env = (\<lambda>k xs. xs)"
    by (simp add: pending_env_def example_env_def)
  have 7: "fst (processor_update 3 example_env 99 example_world) = Some (Inr ())"
    by code_simp
  have 8: "lastUpdate (snd (processor_update 3 example_env 99 example_world)) = Some 99"
    by code_simp
  have 9: "waitForTasksWithRetries pending_env [3] = Inl TimeoutError"
    by code_simp
  note t = timed_out_pass_keeps_watermark[OF 1 2 3, of 99]
  have a: "fst (processor_update 3 pending_env 99 example_world) = Some (Inl TimeoutError)"
    using t by (elim conjE)
  have "lastUpdate (snd (processor_update 3 pending_env 99 example_world)) =
      lastUpdate example_world"
    using t by (elim conjE)
  then have b: "lastUpdate (snd (processor_update 3 pending_env 99 example_world)) = Some 10"
    by (simp only: 4)
  have "queue_writers pending_env = (\<lambda>k xs. xs) \<longrightarrow>
      db_searchIndexUpdateQueue (snd (processor_update 3 pending_env 99 example_world)) =
        db_searchIndexUpdateQueue example_world"
    using t by (elim conjE)
  then have c: "db_searchIndexUpdateQueue (snd (processor_update 3 pending_env 99 example_world)) =
      example_queue"
    using 6 by (simp only: 5 simp_thms)
  show ?thesis
    using 1 9 a b 4 c 7 8 by (intro conjI)
qed

end
